theory Spec2Isabelle
  imports Complex_Main "HOL-Library.AList"
begin

section \<open>The HyperMind service: tiered context memory, scope stack, context graph\<close>

text \<open>
  A shallow embedding of \<^verbatim>\<open>HyperMindService\<close> (the service with \<^verbatim>\<open>pushScope\<close>,
  \<^verbatim>\<open>popScope\<close>, \<^verbatim>\<open>storeContext\<close>, \<^verbatim>\<open>retrieveContext\<close>, \<^verbatim>\<open>_optimizeMemory\<close>,
  \<^verbatim>\<open>_deduplicateContexts\<close>, \<^verbatim>\<open>_promoteIfNeeded\<close>, \<^verbatim>\<open>_archiveScope\<close> and
  \<^verbatim>\<open>_updateContextGraph\<close>).

  What the environment supplies is a parameter of the operation that reads it:
  \<^item> the clock (\<^verbatim>\<open>new Date()\<close>, \<^verbatim>\<open>Date.now()\<close>) is the argument \<open>now\<close>, in milliseconds;
    an ISO timestamp string is represented by the millisecond count it denotes
    (\<^verbatim>\<open>new Date(iso).getTime()\<close> gives it back), and one call reads one clock value;
  \<^item> the fresh identifier of \<^verbatim>\<open>_generateScopeId\<close> (clock and \<^verbatim>\<open>Math.random\<close>) is the
    argument \<open>sid\<close>;
  \<^item> \<^verbatim>\<open>JSON.stringify\<close> is the argument \<open>stringify\<close>, a total function on the stored
    values (values that make it throw, such as cyclic objects, are left out).

  The four tier objects are plain JavaScript objects used as dictionaries. An object is
  modelled by the list of its own properties in the order \<^verbatim>\<open>Object.entries\<close> lists them:
  keys that are array indices first, in ascending numeric order, then every other key in
  the order of creation. Its prototype is \<^verbatim>\<open>Object.prototype\<close>, so reading a key that is
  not an own property finds the members of \<^verbatim>\<open>Object.prototype\<close>.

  Context keys are the strings other than \<^verbatim>\<open>__proto__\<close> (the type \<open>key\<close>). With that one
  key the assignment \<^verbatim>\<open>this.memoryStore[tier][key] = contextEntry\<close> creates no property: it
  reaches the accessor that \<^verbatim>\<open>Object.prototype\<close> has under this name and makes the entry the
  prototype of the tier object, after which reads of \<^verbatim>\<open>key\<close>, \<^verbatim>\<open>value\<close> and \<^verbatim>\<open>metadata\<close>
  on that tier find the fields of the entry, and what a retrieval then does depends on the
  properties of the stored value itself. Stored values are opaque here, so the service is
  modelled for all other keys, and a tier object always has the prototype
  \<^verbatim>\<open>Object.prototype\<close>.

  Counters are natural numbers (the source's doubles stay exact below \<open>2^53\<close>).
\<close>

subsection \<open>Data\<close>

datatype tier = Hot | Warm | Cold | Archived

datatype js_error = Error string | TypeError

definition EmptyStackError :: js_error where
  "EmptyStackError = Error ''Cannot pop from empty scope stack''"

text \<open>
  A context key: a string that is not \<^verbatim>\<open>__proto__\<close>. \<open>key_name\<close> gives the string of a key
  and \<open>Key\<close> the key of a string.
\<close>

typedef key = "{s :: string. s \<noteq> ''__proto__''}"
  morphisms key_name Key
  by (rule exI [of _ "''''"]) simp

text \<open>A scope instance. Its \<^verbatim>\<open>context\<close> field is always the empty object and is left out.\<close>

datatype 'c scope =
  Scope (scope_id: string) (config: 'c) (scope_timestamp: int) (parent: "'c scope option")

text \<open>A stored value: something of the caller's, or a scope instance (archived by pop).\<close>

datatype 'c jsvalue = Plain 'c | ScopeObj "'c scope"

record metadata =
  timestamp :: int
  accessCount :: nat
  significance :: real
  lastAccessed :: "int option"

record 'a contextEntry =
  key :: key
  val :: 'a
  metadata :: metadata

type_synonym 'a jsobject = "(key \<times> 'a) list"

record 'c memory_store =
  hot :: "'c jsvalue contextEntry jsobject"
  warm :: "'c jsvalue contextEntry jsobject"
  cold :: "'c jsvalue contextEntry jsobject"
  archived :: "'c jsvalue contextEntry jsobject"

record 'c graph_node =
  node_id :: string
  node_type :: string
  node_data :: "'c scope"

record graph_edge =
  edge_from :: string
  edge_to :: string
  edge_type :: string

record 'c context_graph =
  nodes :: "'c graph_node list"
  edges :: "graph_edge list"

record 'c hypermind =
  memoryStore :: "'c memory_store"
  scopeStack :: "'c scope list"
  contextGraph :: "'c context_graph"

record store_options =
  opt_tier :: "tier option"
  opt_significance :: "real option"

definition no_options :: store_options where
  "no_options = \<lparr>opt_tier = None, opt_significance = None\<rparr>"

text \<open>The field initialisers of the class.\<close>

definition init :: "'c hypermind" where
  "init = \<lparr>memoryStore = \<lparr>hot = [], warm = [], cold = [], archived = []\<rparr>,
            scopeStack = [],
            contextGraph = \<lparr>nodes = [], edges = []\<rparr>\<rparr>"

subsection \<open>JavaScript objects as dictionaries\<close>

text \<open>The own property names of \<^verbatim>\<open>Object.prototype\<close>; each holds a truthy value.\<close>

definition object_prototype_names :: "string list" where
  "object_prototype_names =
     [''constructor'', ''__defineGetter__'', ''__defineSetter__'', ''hasOwnProperty'',
      ''__lookupGetter__'', ''__lookupSetter__'', ''isPrototypeOf'', ''propertyIsEnumerable'',
      ''toString'', ''valueOf'', ''__proto__'', ''toLocaleString'']"

text \<open>
  An array index is the canonical decimal string of a number below \<open>2^32 - 1\<close>:
  digits only, no leading zero but for \<^verbatim>\<open>"0"\<close> itself.
\<close>

definition digit_val :: "char \<Rightarrow> nat option" where
  "digit_val c =
     map_of [(CHR ''0'', 0), (CHR ''1'', 1), (CHR ''2'', 2), (CHR ''3'', 3), (CHR ''4'', 4),
             (CHR ''5'', 5), (CHR ''6'', 6), (CHR ''7'', 7), (CHR ''8'', 8), (CHR ''9'', 9)] c"

fun digits_val :: "nat \<Rightarrow> string \<Rightarrow> nat option" where
  "digits_val n [] = Some n"
| "digits_val n (c # cs) =
     (case digit_val c of None \<Rightarrow> None | Some d \<Rightarrow> digits_val (10 * n + d) cs)"

definition array_index :: "string \<Rightarrow> nat option" where
  "array_index s =
     (if s = [] \<or> (hd s = CHR ''0'' \<and> s \<noteq> ''0'') then None
      else case digits_val 0 s of
             None \<Rightarrow> None
           | Some n \<Rightarrow> if n < 4294967295 then Some n else None)"

text \<open>\<open>obj[k]\<close> read: an own property, else what \<^verbatim>\<open>Object.prototype\<close> has under that name.\<close>

datatype 'a js_get_result = Undefined | Own 'a | Inherited

definition js_get :: "'a jsobject \<Rightarrow> key \<Rightarrow> 'a js_get_result" where
  "js_get obj k =
     (case map_of obj k of
        Some e \<Rightarrow> Own e
      | None \<Rightarrow> if key_name k \<in> set object_prototype_names then Inherited else Undefined)"

text \<open>A new array-index key goes before the first key that is no smaller array index.\<close>

fun insert_index :: "nat \<Rightarrow> key \<Rightarrow> 'a \<Rightarrow> 'a jsobject \<Rightarrow> 'a jsobject" where
  "insert_index n k e [] = [(k, e)]"
| "insert_index n k e (p # ps) =
     (case array_index (key_name (fst p)) of
        Some m \<Rightarrow> if m < n then p # insert_index n k e ps else (k, e) # p # ps
      | None \<Rightarrow> (k, e) # p # ps)"

text \<open>
  \<open>obj[k] = e\<close>, and \<open>k\<close> as a computed key of an object literal after a spread of \<open>obj\<close>:
  an existing own property keeps its place and gets the value, a new one is placed by the
  ordering of own keys.
\<close>

definition js_define :: "'a jsobject \<Rightarrow> key \<Rightarrow> 'a \<Rightarrow> 'a jsobject" where
  "js_define obj k e =
     (if map_of obj k \<noteq> None then AList.update k e obj
      else case array_index (key_name k) of
             Some n \<Rightarrow> insert_index n k e obj
           | None \<Rightarrow> obj @ [(k, e)])"

text \<open>\<open>delete obj[k]\<close>, and the rest of a destructuring that takes \<open>k\<close> out.\<close>

definition js_delete :: "'a jsobject \<Rightarrow> key \<Rightarrow> 'a jsobject" where
  "js_delete obj k = AList.delete k obj"

subsection \<open>Access to the tiers\<close>

fun tier_obj :: "'c memory_store \<Rightarrow> tier \<Rightarrow> 'c jsvalue contextEntry jsobject" where
  "tier_obj m Hot = hot m"
| "tier_obj m Warm = warm m"
| "tier_obj m Cold = cold m"
| "tier_obj m Archived = archived m"

fun set_tier ::
  "tier \<Rightarrow> 'c jsvalue contextEntry jsobject \<Rightarrow> 'c memory_store \<Rightarrow> 'c memory_store" where
  "set_tier Hot obj m = m\<lparr>hot := obj\<rparr>"
| "set_tier Warm obj m = m\<lparr>warm := obj\<rparr>"
| "set_tier Cold obj m = m\<lparr>cold := obj\<rparr>"
| "set_tier Archived obj m = m\<lparr>archived := obj\<rparr>"

subsection \<open>The operations\<close>

text \<open>\<^verbatim>\<open>_updateContextGraph(scope)\<close>: one node, and one edge when the scope has a parent.\<close>

definition updateContextGraph :: "'c scope \<Rightarrow> 'c hypermind \<Rightarrow> 'c hypermind" where
  "updateContextGraph scope st =
     (let g = contextGraph st;
          g1 = g\<lparr>nodes := nodes g @ [\<lparr>node_id = scope_id scope, node_type = ''scope'',
                                       node_data = scope\<rparr>]\<rparr>;
          g2 = (case parent scope of
                  Some p \<Rightarrow> g1\<lparr>edges := edges g1 @ [\<lparr>edge_from = scope_id p,
                                                      edge_to = scope_id scope,
                                                      edge_type = ''parent-child''\<rparr>]\<rparr>
                | None \<Rightarrow> g1)
      in st\<lparr>contextGraph := g2\<rparr>)"

text \<open>\<^verbatim>\<open>getCurrentScope()\<close>: \<^verbatim>\<open>this.scopeStack[this.scopeStack.length - 1] || null\<close>.\<close>

definition getCurrentScope :: "'c hypermind \<Rightarrow> 'c scope option" where
  "getCurrentScope st = (if scopeStack st = [] then None else Some (last (scopeStack st)))"

text \<open>\<^verbatim>\<open>pushScope(scopeConfig)\<close>, returning the scope instance.\<close>

definition pushScope :: "string \<Rightarrow> int \<Rightarrow> 'c \<Rightarrow> 'c hypermind \<Rightarrow> 'c scope \<times> 'c hypermind" where
  "pushScope sid now scopeConfig st =
     (let scopeInstance = Scope sid scopeConfig now (getCurrentScope st);
          st1 = st\<lparr>scopeStack := scopeStack st @ [scopeInstance]\<rparr>
      in (scopeInstance, updateContextGraph scopeInstance st1))"

text \<open>
  The loop of \<^verbatim>\<open>_optimizeMemory\<close> over \<^verbatim>\<open>Object.entries(this.memoryStore.hot)\<close>, one
  entry at a time: an entry older than 24 hours that was read fewer than 5 times goes to warm.
\<close>

definition demote ::
  "int \<Rightarrow> 'c memory_store \<Rightarrow> key \<times> 'c jsvalue contextEntry \<Rightarrow> 'c memory_store" where
  "demote now m p =
     (let entry = snd p;
          age = now - timestamp (metadata entry);
          ageInHours = real_of_int age / (1000 * 60 * 60)
      in if ageInHours > 24 \<and> accessCount (metadata entry) < 5
         then (let m1 = m\<lparr>warm := js_define (warm m) (fst p) entry\<rparr>
               in m1\<lparr>hot := js_delete (hot m1) (fst p)\<rparr>)
         else m)"

text \<open>
  \<^verbatim>\<open>_deduplicateContexts\<close>: the body of the inner loop, the inner loop over the entries a
  tier has when its turn comes, and the outer loop over hot, warm and cold. \<open>seen\<close> is the
  set of serialisations met so far.
\<close>

definition dedup_entry ::
  "('c jsvalue \<Rightarrow> 's) \<Rightarrow> tier \<Rightarrow> 's list \<times> 'c memory_store \<Rightarrow>
   key \<times> 'c jsvalue contextEntry \<Rightarrow> 's list \<times> 'c memory_store" where
  "dedup_entry stringify t sm p =
     (let valueStr = stringify (val (snd p))
      in if valueStr \<in> set (fst sm)
         then (fst sm, set_tier t (js_delete (tier_obj (snd sm) t) (fst p)) (snd sm))
         else (valueStr # fst sm, snd sm))"

definition dedup_tier ::
  "('c jsvalue \<Rightarrow> 's) \<Rightarrow> 's list \<times> 'c memory_store \<Rightarrow> tier \<Rightarrow> 's list \<times> 'c memory_store" where
  "dedup_tier stringify sm t = foldl (dedup_entry stringify t) sm (tier_obj (snd sm) t)"

definition deduplicateContexts :: "('c jsvalue \<Rightarrow> 's) \<Rightarrow> 'c memory_store \<Rightarrow> 'c memory_store" where
  "deduplicateContexts stringify m = snd (foldl (dedup_tier stringify) ([], m) [Hot, Warm, Cold])"

definition optimizeMemory ::
  "('c jsvalue \<Rightarrow> 's) \<Rightarrow> int \<Rightarrow> 'c memory_store \<Rightarrow> 'c memory_store" where
  "optimizeMemory stringify now m = deduplicateContexts stringify (foldl (demote now) m (hot m))"

text \<open>\<^verbatim>\<open>storeContext(key, value, options)\<close>.\<close>

definition storeContext ::
  "('c jsvalue \<Rightarrow> 's) \<Rightarrow> int \<Rightarrow> key \<Rightarrow> 'c jsvalue \<Rightarrow> store_options \<Rightarrow>
   'c hypermind \<Rightarrow> 'c hypermind" where
  "storeContext stringify now k v options st =
     (let t = (case opt_tier options of Some t \<Rightarrow> t | None \<Rightarrow> Hot);
          contextEntry =
            \<lparr>key = k, val = v,
             metadata = \<lparr>timestamp = now, accessCount = 0,
                         significance = (case opt_significance options of
                                           Some s \<Rightarrow> if s = 0 then 1 else s
                                         | None \<Rightarrow> 1),
                         lastAccessed = None\<rparr>\<rparr>;
          m = memoryStore st;
          m1 = set_tier t (js_define (tier_obj m t) k contextEntry) m
      in st\<lparr>memoryStore := optimizeMemory stringify now m1\<rparr>)"

text \<open>\<^verbatim>\<open>_archiveScope(scope)\<close> and \<^verbatim>\<open>popScope()\<close>.\<close>

definition archiveScope ::
  "('c jsvalue \<Rightarrow> 's) \<Rightarrow> int \<Rightarrow> 'c scope \<Rightarrow> 'c hypermind \<Rightarrow> 'c hypermind" where
  "archiveScope stringify now scope st =
     (let archiveKey = Key (''scope_'' @ scope_id scope)
      in storeContext stringify now archiveKey (ScopeObj scope)
           \<lparr>opt_tier = Some Archived, opt_significance = None\<rparr> st)"

definition popScope ::
  "('c jsvalue \<Rightarrow> 's) \<Rightarrow> int \<Rightarrow> 'c hypermind \<Rightarrow> (js_error + 'c scope) \<times> 'c hypermind" where
  "popScope stringify now st =
     (if length (scopeStack st) = 0 then (Inl EmptyStackError, st)
      else (let popped = last (scopeStack st);
                st1 = st\<lparr>scopeStack := butlast (scopeStack st)\<rparr>
            in (Inr popped, archiveScope stringify now popped st1)))"

text \<open>
  \<^verbatim>\<open>_promoteIfNeeded(key, currentTier)\<close>. \<^verbatim>\<open>indexOf\<close> gives \<open>-1\<close> for a missing element.
  Reading \<^verbatim>\<open>entry.metadata.accessCount\<close> of an inherited member throws.
\<close>

definition tierOrder :: "tier list" where
  "tierOrder = [Archived, Cold, Warm, Hot]"

fun indexOf :: "'a list \<Rightarrow> 'a \<Rightarrow> int" where
  "indexOf [] x = - 1"
| "indexOf (y # ys) x = (if y = x then 0 else let i = indexOf ys x in if i < 0 then - 1 else i + 1)"

definition promoteIfNeeded ::
  "key \<Rightarrow> tier \<Rightarrow> 'c memory_store \<Rightarrow> js_error option \<times> 'c memory_store" where
  "promoteIfNeeded k currentTier m =
     (let currentIndex = indexOf tierOrder currentTier
      in case js_get (tier_obj m currentTier) k of
           Undefined \<Rightarrow> (None, m)
         | Inherited \<Rightarrow> (Some TypeError, m)
         | Own entry \<Rightarrow>
             if accessCount (metadata entry) > 10 \<and> currentIndex < int (length tierOrder) - 1
             then (let newTier = tierOrder ! nat (currentIndex + 1);
                       m1 = set_tier newTier (js_define (tier_obj m newTier) k entry) m;
                       m2 = set_tier currentTier (js_delete (tier_obj m1 currentTier) k) m1
                   in (None, m2))
             else (None, m))"

text \<open>
  \<^verbatim>\<open>retrieveContext(key)\<close>: the loop over the four tiers. The first truthy
  \<^verbatim>\<open>this.memoryStore[tier][key]\<close> is taken for the entry; when it is an inherited member of
  \<^verbatim>\<open>Object.prototype\<close>, it has no \<^verbatim>\<open>metadata\<close> and \<^verbatim>\<open>entry.metadata.accessCount++\<close>
  throws a TypeError before anything is written. \<open>Inr None\<close> is the \<^verbatim>\<open>null\<close> result.
\<close>

definition touch :: "int \<Rightarrow> 'a contextEntry \<Rightarrow> 'a contextEntry" where
  "touch now entry =
     entry\<lparr>metadata := (metadata entry)\<lparr>accessCount := accessCount (metadata entry) + 1,
                                        lastAccessed := Some now\<rparr>\<rparr>"

fun retrieve_loop ::
  "int \<Rightarrow> key \<Rightarrow> 'c hypermind \<Rightarrow> tier list \<Rightarrow> (js_error + 'c jsvalue option) \<times> 'c hypermind"
  where
  "retrieve_loop now k st [] = (Inr None, st)"
| "retrieve_loop now k st (t # ts) =
     (case js_get (tier_obj (memoryStore st) t) k of
        Undefined \<Rightarrow> retrieve_loop now k st ts
      | Inherited \<Rightarrow> (Inl TypeError, st)
      | Own entry \<Rightarrow>
          (let m = memoryStore st;
               m1 = set_tier t (AList.update k (touch now entry) (tier_obj m t)) m;
               r = promoteIfNeeded k t m1
           in (case fst r of
                 Some err \<Rightarrow> (Inl err, st\<lparr>memoryStore := snd r\<rparr>)
               | None \<Rightarrow> (Inr (Some (val entry)), st\<lparr>memoryStore := snd r\<rparr>))))"

definition retrieveContext ::
  "int \<Rightarrow> key \<Rightarrow> 'c hypermind \<Rightarrow> (js_error + 'c jsvalue option) \<times> 'c hypermind" where
  "retrieveContext now k st = retrieve_loop now k st [Hot, Warm, Cold, Archived]"

subsection \<open>Notions used to state the properties\<close>

text \<open>A key is held by a tier when it is an own property of the tier object.\<close>

definition has :: "'a jsobject \<Rightarrow> key \<Rightarrow> bool" where
  "has obj k = (map_of obj k \<noteq> None)"

definition tiers_holding :: "'c memory_store \<Rightarrow> key \<Rightarrow> tier list" where
  "tiers_holding m k = filter (\<lambda>t. has (tier_obj m t) k) [Hot, Warm, Cold, Archived]"

definition exclusive :: "'c memory_store \<Rightarrow> key \<Rightarrow> bool" where
  "exclusive m k = (length (tiers_holding m k) \<le> 1)"

text \<open>Older than 24 hours and read fewer than 5 times: the test of the loop of \<open>demote\<close>.\<close>

definition stale :: "int \<Rightarrow> 'a contextEntry \<Rightarrow> bool" where
  "stale now entry =
     (real_of_int (now - timestamp (metadata entry)) / (1000 * 60 * 60) > 24 \<and>
      accessCount (metadata entry) < 5)"

text \<open>Runs of the tier store: calls of store and retrieve, and maintenance passes.\<close>

datatype 'c tier_op =
  Store int key "'c jsvalue" store_options
| Retrieve int key
| Maintain int

fun tier_step :: "('c jsvalue \<Rightarrow> 's) \<Rightarrow> 'c hypermind \<Rightarrow> 'c tier_op \<Rightarrow> 'c hypermind" where
  "tier_step stringify st (Store now k v options) = storeContext stringify now k v options st"
| "tier_step stringify st (Retrieve now k) = snd (retrieveContext now k st)"
| "tier_step stringify st (Maintain now) =
     st\<lparr>memoryStore := optimizeMemory stringify now (memoryStore st)\<rparr>"

definition tier_run ::
  "('c jsvalue \<Rightarrow> 's) \<Rightarrow> 'c hypermind \<Rightarrow> 'c tier_op list \<Rightarrow> 'c hypermind" where
  "tier_run stringify st ops = foldl (tier_step stringify) st ops"

fun stores_key :: "key \<Rightarrow> 'c tier_op \<Rightarrow> bool" where
  "stores_key k (Store now k' v options) = (k' = k)"
| "stores_key k (Retrieve now k') = False"
| "stores_key k (Maintain now) = False"

text \<open>Runs of the whole service.\<close>

datatype 'c op = Push string int 'c | Pop int | Tier "'c tier_op"

fun step :: "('c jsvalue \<Rightarrow> 's) \<Rightarrow> 'c hypermind \<Rightarrow> 'c op \<Rightarrow> 'c hypermind" where
  "step stringify st (Push sid now scopeConfig) = snd (pushScope sid now scopeConfig st)"
| "step stringify st (Pop now) = snd (popScope stringify now st)"
| "step stringify st (Tier a) = tier_step stringify st a"

definition run :: "('c jsvalue \<Rightarrow> 's) \<Rightarrow> 'c hypermind \<Rightarrow> 'c op list \<Rightarrow> 'c hypermind" where
  "run stringify st ops = foldl (step stringify) st ops"

text \<open>The scope instances that the pushes of a run return, in the order of the pushes.\<close>

fun pushed :: "('c jsvalue \<Rightarrow> 's) \<Rightarrow> 'c hypermind \<Rightarrow> 'c op list \<Rightarrow> 'c scope list" where
  "pushed stringify st [] = []"
| "pushed stringify st (Push sid now scopeConfig # ops) =
     fst (pushScope sid now scopeConfig st) #
     pushed stringify (step stringify st (Push sid now scopeConfig)) ops"
| "pushed stringify st (a # ops) = pushed stringify (step stringify st a) ops"

text \<open>A series of pushes, and a series of pops, one per clock value, with their results.\<close>

fun push_all :: "(string \<times> int \<times> 'c) list \<Rightarrow> 'c hypermind \<Rightarrow> 'c scope list \<times> 'c hypermind" where
  "push_all [] st = ([], st)"
| "push_all ((sid, now, scopeConfig) # ins) st =
     (let r = pushScope sid now scopeConfig st;
          rs = push_all ins (snd r)
      in (fst r # fst rs, snd rs))"

fun pop_all ::
  "('c jsvalue \<Rightarrow> 's) \<Rightarrow> int list \<Rightarrow> 'c hypermind \<Rightarrow> (js_error + 'c scope) list \<times> 'c hypermind"
  where
  "pop_all stringify [] st = ([], st)"
| "pop_all stringify (now # nows) st =
     (let r = popScope stringify now st;
          rs = pop_all stringify nows (snd r)
      in (fst r # fst rs, snd rs))"

text \<open>
  The tiers that \<^verbatim>\<open>retrieveContext\<close> scans before it comes to \<open>t\<close>, and what it means that
  the scan comes to the entry \<open>e\<close> in tier \<open>t\<close>: the tiers before \<open>t\<close> have nothing under the
  key, and \<open>t\<close> holds \<open>e\<close> under it.
\<close>

definition scanned_before :: "tier \<Rightarrow> tier list" where
  "scanned_before t = takeWhile (\<lambda>t'. t' \<noteq> t) [Hot, Warm, Cold, Archived]"

definition reaches :: "'c memory_store \<Rightarrow> key \<Rightarrow> tier \<Rightarrow> 'c jsvalue contextEntry \<Rightarrow> bool" where
  "reaches m k t e =
     (js_get (tier_obj m t) k = Own e \<and>
      list_all (\<lambda>t'. js_get (tier_obj m t') k = Undefined) (scanned_before t))"

text \<open>One step up the order archived, cold, warm, hot.\<close>

fun tier_above :: "tier \<Rightarrow> tier" where
  "tier_above Archived = Cold"
| "tier_above Cold = Warm"
| "tier_above Warm = Hot"
| "tier_above Hot = Hot"

text \<open>The store after the entry \<open>e\<close> under \<open>k\<close> has moved from \<open>t\<close> to the tier above.\<close>

definition promoted ::
  "key \<Rightarrow> tier \<Rightarrow> 'c jsvalue contextEntry \<Rightarrow> 'c memory_store \<Rightarrow> 'c memory_store" where
  "promoted k t e m =
     set_tier t (js_delete (tier_obj m t) k)
       (set_tier (tier_above t) (js_define (tier_obj m (tier_above t)) k e) m)"

text \<open>The node and the edge (if any) that a push adds to the context graph for a scope.\<close>

definition scope_node :: "'c scope \<Rightarrow> 'c graph_node" where
  "scope_node f = \<lparr>node_id = scope_id f, node_type = ''scope'', node_data = f\<rparr>"

definition scope_edges :: "'c scope \<Rightarrow> graph_edge list" where
  "scope_edges f =
     (case parent f of
        None \<Rightarrow> []
      | Some p \<Rightarrow> [\<lparr>edge_from = scope_id p, edge_to = scope_id f, edge_type = ''parent-child''\<rparr>])"

fun is_push :: "'c op \<Rightarrow> bool" where
  "is_push (Push sid now scopeConfig) = True"
| "is_push (Pop now) = False"
| "is_push (Tier a) = False"

text \<open>\<open>m'\<close> has lost entries of hot, warm and cold, and is otherwise \<open>m\<close>.\<close>

definition shrunk :: "'c memory_store \<Rightarrow> 'c memory_store \<Rightarrow> bool" where
  "shrunk m m' =
     (archived m' = archived m \<and>
      (\<forall>t. set (tier_obj m' t) \<subseteq> set (tier_obj m t)) \<and>
      (\<forall>t k. map_of (tier_obj m' t) k = None \<or> map_of (tier_obj m' t) k = map_of (tier_obj m t) k))"

text \<open>
  What the loop of \<open>demote\<close> over the entries \<open>ps\<close> can have made of \<open>m\<close>: cold and archived
  are as before, hot has lost entries, warm has gained stale entries of \<open>ps\<close> only, and keys
  of no stale entry of \<open>ps\<close> are where they were.
\<close>

definition demoted ::
  "int \<Rightarrow> 'c jsvalue contextEntry jsobject \<Rightarrow> 'c memory_store \<Rightarrow> 'c memory_store \<Rightarrow> bool" where
  "demoted now ps m m' =
     (cold m' = cold m \<and> archived m' = archived m \<and>
      set (hot m') \<subseteq> set (hot m) \<and>
      set (warm m') \<subseteq> set (warm m) \<union> {p \<in> set ps. stale now (snd p)} \<and>
      (\<forall>k. map_of (hot m') k = None \<or> map_of (hot m') k = map_of (hot m) k) \<and>
      (\<forall>k. k \<notin> fst ` {p \<in> set ps. stale now (snd p)} \<longrightarrow>
             map_of (hot m') k = map_of (hot m) k \<and> map_of (warm m') k = map_of (warm m) k))"

text \<open>The entry that \<^verbatim>\<open>_archiveScope\<close> stores for a scope.\<close>

definition archive_entry :: "int \<Rightarrow> 'c scope \<Rightarrow> 'c jsvalue contextEntry" where
  "archive_entry now f =
     \<lparr>key = Key (''scope_'' @ scope_id f), val = ScopeObj f,
      metadata = \<lparr>timestamp = now, accessCount = 0, significance = 1, lastAccessed = None\<rparr>\<rparr>"

text \<open>
  The serialisation of an entry's value, and the deduplication as the specification words it:
  going through the entries in order, an entry whose serialisation has been seen is dropped,
  any other entry is kept and its serialisation is seen from then on.
\<close>

definition serial :: "('a \<Rightarrow> 's) \<Rightarrow> key \<times> 'a contextEntry \<Rightarrow> 's" where
  "serial stringify p = stringify (val (snd p))"

fun keep_first ::
  "('a \<Rightarrow> 's) \<Rightarrow> 's set \<Rightarrow> 'a contextEntry jsobject \<Rightarrow> 'a contextEntry jsobject" where
  "keep_first stringify seen [] = []"
| "keep_first stringify seen (p # ps) =
     (if serial stringify p \<in> seen then keep_first stringify seen ps
      else p # keep_first stringify (insert (serial stringify p) seen) ps)"

text \<open>The keys of a tier object are distinct, as the own property names of an object are.\<close>

definition distinct_keys :: "'c memory_store \<Rightarrow> bool" where
  "distinct_keys m =
     (distinct (map fst (hot m)) \<and> distinct (map fst (warm m)) \<and> distinct (map fst (cold m)) \<and>
      distinct (map fst (archived m)))"


text \<open>
  The entries that the deduplication has met when it is through with tier \<open>t\<close>: those of \<open>t\<close>
  and of the tiers before it in the order hot, warm, cold.
\<close>

fun met_by :: "'c memory_store \<Rightarrow> tier \<Rightarrow> 'c jsvalue contextEntry jsobject" where
  "met_by m Hot = hot m"
| "met_by m Warm = hot m @ warm m"
| "met_by m Cold = hot m @ warm m @ cold m"
| "met_by m Archived = hot m @ warm m @ cold m"


text \<open>The entry that a store call creates, and the tier it puts it in.\<close>

definition new_entry :: "int \<Rightarrow> key \<Rightarrow> 'a \<Rightarrow> store_options \<Rightarrow> 'a contextEntry" where
  "new_entry now k v options =
     \<lparr>key = k, val = v,
      metadata = \<lparr>timestamp = now, accessCount = 0,
                  significance = (case opt_significance options of
                                    Some s \<Rightarrow> if s = 0 then 1 else s
                                  | None \<Rightarrow> 1),
                  lastAccessed = None\<rparr>\<rparr>"

definition target_tier :: "store_options \<Rightarrow> tier" where
  "target_tier options = (case opt_tier options of Some t \<Rightarrow> t | None \<Rightarrow> Hot)"

text \<open>
  The store on which the deduplication of a store call runs: the entry has been put and the
  stale hot entries have been demoted.
\<close>

definition before_dedup ::
  "int \<Rightarrow> key \<Rightarrow> 'c jsvalue \<Rightarrow> store_options \<Rightarrow> 'c memory_store \<Rightarrow> 'c memory_store" where
  "before_dedup now k v options m =
     (let t = target_tier options;
          m1 = set_tier t (js_define (tier_obj m t) k (new_entry now k v options)) m
      in foldl (demote now) m1 (hot m1))"

text \<open>
  A stack whose elements are linked by their parents: the parent of the first element is
  \<open>below\<close>, the parent of every other element is the element before it.
\<close>

fun linked :: "'c scope option \<Rightarrow> 'c scope list \<Rightarrow> bool" where
  "linked below [] = True"
| "linked below (f # fs) = (parent f = below \<and> linked (Some f) fs)"

section \<open>Facts\<close>

subsection \<open>Objects and tiers\<close>

lemma map_of_insert_index:
  "map_of ps k = None \<Longrightarrow> map_of (insert_index n k e ps) = (map_of ps)(k \<mapsto> e)"
  by (induction ps) (auto split: option.splits simp: fun_eq_iff)

lemma map_of_append_new: "map_of ps k = None \<Longrightarrow> map_of (ps @ [(k, e)]) = (map_of ps)(k \<mapsto> e)"
  by (induction ps) (auto simp: fun_eq_iff)

lemma map_of_js_define: "map_of (js_define obj k e) = (map_of obj)(k \<mapsto> e)"
  by (auto simp add: js_define_def update_conv' map_of_insert_index map_of_append_new
      simp del: map_of_append split: option.splits)

lemma map_of_js_delete: "map_of (js_delete obj k) = (map_of obj)(k := None)"
  by (simp add: js_delete_def delete_conv')

lemma map_of_js_define_other: "k' \<noteq> k \<Longrightarrow> map_of (js_define obj k e) k' = map_of obj k'"
  by (simp add: map_of_js_define)

lemma map_of_js_define_same: "map_of (js_define obj k e) k = Some e"
  by (simp add: map_of_js_define)

lemma set_insert_index: "set (insert_index n k e ps) = insert (k, e) (set ps)"
  by (induction ps) (auto split: option.splits)

lemma set_alist_update_subset: "set (AList.update k e ps) \<subseteq> insert (k, e) (set ps)"
  by (induction ps) auto

lemma set_js_define_subset: "set (js_define obj k e) \<subseteq> insert (k, e) (set obj)"
  using set_alist_update_subset [of k e obj]
  by (simp add: js_define_def set_insert_index split: option.splits)

lemma set_js_delete: "set (js_delete obj k) = {p \<in> set obj. fst p \<noteq> k}"
  by (induction obj) (auto simp: js_delete_def)

lemma tier_obj_set_tier: "tier_obj (set_tier t obj m) t' = (if t' = t then obj else tier_obj m t')"
  by (cases t; cases t') simp_all

lemma set_tier_same: "set_tier t (tier_obj m t) m = m"
  by (cases t) simp_all

text \<open>Keys given by their strings.\<close>

lemma key_name_Key [simp]: "s \<noteq> ''__proto__'' \<Longrightarrow> key_name (Key s) = s"
  by (simp add: Key_inverse)

lemma Key_eq_iff [simp]: "s \<noteq> ''__proto__'' \<Longrightarrow> t \<noteq> ''__proto__'' \<Longrightarrow> Key s = Key t \<longleftrightarrow> s = t"
  by (simp add: Key_inject)

lemma key_name_scope: "key_name (Key (''scope_'' @ sid)) = ''scope_'' @ sid"
  by (simp add: key_name_Key)

lemmas js_defs = js_define_def js_delete_def js_get_def array_index_def digit_val_def
  object_prototype_names_def key_name_Key Key_eq_iff

lemmas op_defs = storeContext_def optimizeMemory_def deduplicateContexts_def dedup_tier_def
  dedup_entry_def demote_def retrieveContext_def promoteIfNeeded_def tierOrder_def touch_def
  popScope_def archiveScope_def pushScope_def updateContextGraph_def getCurrentScope_def
  init_def no_options_def EmptyStackError_def

subsection \<open>Pop on an empty stack\<close>

text \<open>
  C8. \<^verbatim>\<open>popScope\<close> throws the empty-stack error exactly when the scope stack is empty,
  and then the service is left as it was: the stack, the tiers and the context graph are
  unchanged.
\<close>

theorem pop_empty_error:
  "(fst (popScope stringify now st) = Inl EmptyStackError \<longleftrightarrow> scopeStack st = []) \<and>
   (scopeStack st = [] \<longrightarrow> snd (popScope stringify now st) = st)"
  by (simp add: popScope_def Let_def)

theorem pop_empty_error_witness:
  "scopeStack (init :: nat hypermind) = [] \<and>
   popScope (\<lambda>v. v) 0 (init :: nat hypermind) = (Inl EmptyStackError, init)"
  using pop_empty_error [of "\<lambda>v. v" 0 "init :: nat hypermind"]
  by (simp add: init_def prod_eq_iff)

subsection \<open>What a retrieval does\<close>

lemma js_get_Own: "js_get obj k = Own e \<longleftrightarrow> map_of obj k = Some e"
  by (simp add: js_get_def split: option.splits)

lemma js_get_Undefined: "js_get obj k = Undefined \<Longrightarrow> map_of obj k = None"
  by (simp add: js_get_def split: option.splits if_splits)

lemma promoteIfNeeded_Own:
  assumes "js_get (tier_obj m t) k = Own e"
  shows "promoteIfNeeded k t m =
          (None, if 10 < accessCount (metadata e) \<and> t \<noteq> Hot then promoted k t e m else m)"
  using assms
  by (cases t) (simp_all add: promoteIfNeeded_def tierOrder_def promoted_def Let_def)

lemma retrieve_loop_skip:
  "list_all (\<lambda>t'. js_get (tier_obj (memoryStore st) t') k = Undefined) ts \<Longrightarrow>
   retrieve_loop now k st (ts @ us) = retrieve_loop now k st us"
  by (induction ts) simp_all

lemma retrieve_loop_hit:
  assumes "js_get (tier_obj (memoryStore st) t) k = Own e"
  shows "retrieve_loop now k st (t # ts) =
     (Inr (Some (val e)),
      st\<lparr>memoryStore :=
           (let m1 = set_tier t (AList.update k (touch now e) (tier_obj (memoryStore st) t))
                       (memoryStore st)
            in if 10 < accessCount (metadata (touch now e)) \<and> t \<noteq> Hot
               then promoted k t (touch now e) m1 else m1)\<rparr>)"
proof -
  let ?m1 = "set_tier t (AList.update k (touch now e) (tier_obj (memoryStore st) t)) (memoryStore st)"
  have "js_get (tier_obj ?m1 t) k = Own (touch now e)"
    by (simp add: tier_obj_set_tier js_get_Own update_conv')
  from promoteIfNeeded_Own [OF this] show ?thesis
    using assms by (simp add: Let_def)
qed

lemma scan_split: "[Hot, Warm, Cold, Archived] = scanned_before t @ t # tl (dropWhile (\<lambda>t'. t' \<noteq> t) [Hot, Warm, Cold, Archived])"
  by (cases t) (simp_all add: scanned_before_def)

lemma retrieve_hit:
  assumes "reaches (memoryStore st) k t e"
  shows "retrieveContext now k st =
     (Inr (Some (val e)),
      st\<lparr>memoryStore :=
           (let m1 = set_tier t (AList.update k (touch now e) (tier_obj (memoryStore st) t))
                       (memoryStore st)
            in if 10 < accessCount (metadata (touch now e)) \<and> t \<noteq> Hot
               then promoted k t (touch now e) m1 else m1)\<rparr>)"
proof -
  let ?R = "tl (dropWhile (\<lambda>t'. t' \<noteq> t) [Hot, Warm, Cold, Archived])"
  have own: "js_get (tier_obj (memoryStore st) t) k = Own e"
    using assms by (simp add: reaches_def)
  have "retrieve_loop now k st (scanned_before t @ t # ?R) = retrieve_loop now k st (t # ?R)"
    using assms by (intro retrieve_loop_skip) (simp add: reaches_def)
  then have "retrieveContext now k st = retrieve_loop now k st (t # ?R)"
    unfolding retrieveContext_def using scan_split [of t] by metis
  then show ?thesis
    by (simp only: retrieve_loop_hit [OF own])
qed

lemma retrieve_loop_cases:
  "(\<exists>t e. t \<in> set ts \<and> js_get (tier_obj (memoryStore st) t) k = Own e \<and>
       list_all (\<lambda>t'. js_get (tier_obj (memoryStore st) t') k = Undefined) (takeWhile (\<lambda>t'. t' \<noteq> t) ts)) \<or>
   (retrieve_loop now k st ts = (Inl TypeError, st)) \<or>
   (retrieve_loop now k st ts = (Inr None, st) \<and> list_all (\<lambda>t'. js_get (tier_obj (memoryStore st) t') k = Undefined) ts)"
proof (induction ts)
  case Nil
  then show ?case by simp
next
  case (Cons t ts)
  show ?case
  proof (cases "js_get (tier_obj (memoryStore st) t) k")
    case Undefined
    then show ?thesis using Cons by auto
  next
    case (Own e)
    then show ?thesis by auto
  next
    case Inherited
    then show ?thesis by simp
  qed
qed

lemma retrieve_cases:
  "(\<exists>t e. reaches (memoryStore st) k t e) \<or>
   retrieveContext now k st = (Inl TypeError, st) \<or>
   (retrieveContext now k st = (Inr None, st) \<and> (\<forall>t. js_get (tier_obj (memoryStore st) t) k = Undefined))"
proof -
  have all: "list_all P [Hot, Warm, Cold, Archived] \<Longrightarrow> P t" for P and t :: tier
    by (cases t) simp_all
  from retrieve_loop_cases [of "[Hot, Warm, Cold, Archived]" st k now]
  show ?thesis
    unfolding retrieveContext_def reaches_def scanned_before_def
    using all by blast
qed

lemma tier_above_neq: "t \<noteq> Hot \<Longrightarrow> tier_above t \<noteq> t"
  by (cases t) simp_all

lemma tier_obj_promoted:
  "t \<noteq> Hot \<Longrightarrow>
   tier_obj (promoted k t e m) t' =
     (if t' = t then js_delete (tier_obj m t) k
      else if t' = tier_above t then js_define (tier_obj m (tier_above t)) k e
      else tier_obj m t')"
  by (simp add: promoted_def tier_obj_set_tier tier_above_neq)

lemma scanned_before_above: "t \<noteq> Hot \<Longrightarrow> tier_above t \<in> set (scanned_before t)"
  by (cases t) (simp_all add: scanned_before_def)

lemma scanned_before_mono: "t' \<in> set (scanned_before (tier_above t)) \<Longrightarrow> t' \<in> set (scanned_before t)"
  by (cases t; cases t') (simp_all add: scanned_before_def)

lemma scanned_before_irrefl: "t \<notin> set (scanned_before t)"
  by (cases t) (simp_all add: scanned_before_def)

lemma reaches_not_before:
  "reaches m k t e \<Longrightarrow> t' \<in> set (scanned_before t) \<Longrightarrow> \<not> has (tier_obj m t') k"
  by (auto simp: reaches_def list_all_iff has_def dest: js_get_Undefined)

text \<open>The store after a retrieval that comes to \<open>e\<close> in \<open>t\<close>.\<close>

lemma retrieve_hit_store:
  assumes "reaches (memoryStore st) k t e"
  shows "tier_obj (memoryStore (snd (retrieveContext now k st))) t' =
     (if 10 < accessCount (metadata e) + 1 \<and> t \<noteq> Hot
      then (if t' = t then js_delete (tier_obj (memoryStore st) t) k
            else if t' = tier_above t
                 then js_define (tier_obj (memoryStore st) (tier_above t)) k (touch now e)
                 else tier_obj (memoryStore st) t')
      else (if t' = t then AList.update k (touch now e) (tier_obj (memoryStore st) t)
            else tier_obj (memoryStore st) t'))"
proof -
  have cnt: "accessCount (metadata (touch now e)) = accessCount (metadata e) + 1"
    by (simp add: touch_def)
  show ?thesis
    unfolding retrieve_hit [OF assms]
    by (simp add: Let_def cnt tier_obj_promoted tier_obj_set_tier tier_above_neq
        js_delete_def delete_update_same)
qed

lemma retrieve_loop_ordinary_key:
  "key_name k \<notin> set object_prototype_names \<Longrightarrow> \<not> isl (fst (retrieve_loop now k st ts))"
proof (induction ts)
  case Nil
  then show ?case by simp
next
  case (Cons t ts)
  show ?case
  proof (cases "js_get (tier_obj (memoryStore st) t) k")
    case Undefined
    then show ?thesis using Cons by simp
  next
    case (Own e)
    show ?thesis unfolding retrieve_loop_hit [OF Own] by simp
  next
    case Inherited
    then show ?thesis using Cons.prems by (simp add: js_get_def split: option.splits if_splits)
  qed
qed

text \<open>
  For a key that is not the name of a member of \<^verbatim>\<open>Object.prototype\<close>, a retrieval does
  not throw, and it returns \<^verbatim>\<open>null\<close> and changes nothing when no tier holds the key.
\<close>

lemma retrieve_ordinary_key:
  assumes "key_name k \<notin> set object_prototype_names"
  shows "\<not> isl (fst (retrieveContext now k st))"
    and "(\<forall>t. \<not> has (tier_obj (memoryStore st) t) k) \<Longrightarrow> retrieveContext now k st = (Inr None, st)"
proof -
  show "\<not> isl (fst (retrieveContext now k st))"
    unfolding retrieveContext_def using assms by (rule retrieve_loop_ordinary_key)
  assume "\<forall>t. \<not> has (tier_obj (memoryStore st) t) k"
  then have "js_get (tier_obj (memoryStore st) t) k = Undefined" for t
    using assms by (simp add: js_get_def has_def)
  from this [of Hot] this [of Warm] this [of Cold] this [of Archived]
  show "retrieveContext now k st = (Inr None, st)"
    by (simp add: retrieveContext_def)
qed

subsection \<open>Retrieval of a key that names a member of the prototype\<close>

text \<open>
  C7. \<^verbatim>\<open>retrieveContext\<close> scans hot, warm, cold and archived in this order, updates and
  returns the first entry it finds, and returns \<^verbatim>\<open>null\<close> when no tier holds the key
  (\<open>retrieve_hit\<close>, \<open>retrieve_ordinary_key\<close>); for a key that is not the name of a member of
  \<^verbatim>\<open>Object.prototype\<close> it never throws. A key that names such a member and that no tier
  holds is not answered by \<^verbatim>\<open>null\<close>: on the service as constructed, the retrieval of
  \<^verbatim>\<open>"constructor"\<close> throws a TypeError and leaves the service as it was.
\<close>

theorem retrieve_inherited_name_throws:
  "retrieveContext now (Key ''constructor'') (init :: 'c hypermind) = (Inl TypeError, init)"
  by (simp add: retrieveContext_def init_def js_get_def object_prototype_names_def key_name_Key)

subsection \<open>Promotion by retrieval\<close>

text \<open>
  C4. When a retrieval comes to an entry whose access count, after the increment of this
  retrieval, is above 10, the entry is afterwards in the tier one step above (for hot: still
  in hot), with the incremented access count and nothing else changed but the time of last
  access; it is no longer in the tier it was in; no tier higher than the one above holds the
  key; and every other tier is as it was. So one retrieval moves an entry by one tier, however
  large the access count is, and an entry in hot stays in hot.
\<close>

theorem promotion_one_step:
  assumes "reaches (memoryStore st) k t e" and "10 < accessCount (metadata e) + 1"
  shows "let r = retrieveContext now k st;
             m = memoryStore st;
             m' = memoryStore (snd r);
             e' = e\<lparr>metadata := (metadata e)\<lparr>accessCount := accessCount (metadata e) + 1,
                                               lastAccessed := Some now\<rparr>\<rparr>
         in fst r = Inr (Some (val e)) \<and>
            map_of (tier_obj m' (tier_above t)) k = Some e' \<and>
            (t \<noteq> Hot \<longrightarrow> \<not> has (tier_obj m' t) k) \<and>
            (t = Hot \<longrightarrow> tier_obj m' Hot = AList.update k e' (tier_obj m Hot)) \<and>
            (\<forall>t'. t' \<in> set (scanned_before (tier_above t)) \<longrightarrow> \<not> has (tier_obj m' t') k) \<and>
            (\<forall>t'. t' \<noteq> t \<and> t' \<noteq> tier_above t \<longrightarrow> tier_obj m' t' = tier_obj m t')"
proof -
  note S = retrieve_hit_store [OF assms(1), of now]
  have r: "fst (retrieveContext now k st) = Inr (Some (val e))"
    by (simp add: retrieve_hit [OF assms(1)])
  have own: "map_of (tier_obj (memoryStore st) t) k = Some e"
    using assms(1) by (simp add: reaches_def js_get_Own)
  have dest: "map_of (tier_obj (memoryStore (snd (retrieveContext now k st))) (tier_above t)) k
                = Some (touch now e)"
    using assms(2) S [of "tier_above t"]
    by (cases "t = Hot") (simp_all add: map_of_js_define update_conv' tier_above_neq)
  have src: "t \<noteq> Hot \<Longrightarrow> \<not> has (tier_obj (memoryStore (snd (retrieveContext now k st))) t) k"
    using assms(2) S [of t] by (simp add: has_def map_of_js_delete)
  have stay: "t = Hot \<Longrightarrow> tier_obj (memoryStore (snd (retrieveContext now k st))) Hot
                = AList.update k (touch now e) (tier_obj (memoryStore st) Hot)"
    using S [of Hot] by simp
  have others: "t' \<noteq> t \<Longrightarrow> t' \<noteq> tier_above t \<Longrightarrow>
      tier_obj (memoryStore (snd (retrieveContext now k st))) t' = tier_obj (memoryStore st) t'" for t'
    using S [of t'] by simp
  have above: "t' \<in> set (scanned_before (tier_above t)) \<Longrightarrow>
      \<not> has (tier_obj (memoryStore (snd (retrieveContext now k st))) t') k" for t'
  proof -
    assume a: "t' \<in> set (scanned_before (tier_above t))"
    then have b: "t' \<in> set (scanned_before t)" by (rule scanned_before_mono)
    have "t' \<noteq> t" using b scanned_before_irrefl by auto
    moreover have "t' \<noteq> tier_above t" using a scanned_before_irrefl by auto
    ultimately show ?thesis
      using others [of t'] reaches_not_before [OF assms(1) b] by simp
  qed
  show ?thesis
    unfolding Let_def using r dest src stay others above by (simp add: touch_def)
qed

theorem promotion_one_step_witness:
  "let st = (init :: nat hypermind)\<lparr>memoryStore :=
               \<lparr>hot = [], warm = [],
                cold = [(Key ''k1'', \<lparr>key = Key ''k1'', val = Plain 7,
                                 metadata = \<lparr>timestamp = 0, accessCount = 25, significance = 1,
                                             lastAccessed = None\<rparr>\<rparr>)],
                archived = []\<rparr>\<rparr>;
       e = \<lparr>key = Key ''k1'', val = Plain 7,
            metadata = \<lparr>timestamp = 0, accessCount = 25, significance = 1, lastAccessed = None\<rparr>\<rparr>;
       r = retrieveContext 9 (Key ''k1'') st
   in reaches (memoryStore st) (Key ''k1'') Cold e \<and>
      fst r = Inr (Some (Plain 7)) \<and>
      map_of (warm (memoryStore (snd r))) (Key ''k1'') =
        Some \<lparr>key = Key ''k1'', val = Plain 7,
              metadata = \<lparr>timestamp = 0, accessCount = 26, significance = 1,
                          lastAccessed = Some 9\<rparr>\<rparr> \<and>
      \<not> has (cold (memoryStore (snd r))) (Key ''k1'') \<and>
      \<not> has (hot (memoryStore (snd r))) (Key ''k1'')"
proof -
  let ?e = "\<lparr>key = Key ''k1'', val = Plain (7::nat),
            metadata = \<lparr>timestamp = 0, accessCount = 25, significance = 1, lastAccessed = None\<rparr>\<rparr>"
  let ?st = "(init :: nat hypermind)\<lparr>memoryStore :=
               \<lparr>hot = [], warm = [], cold = [(Key ''k1'', ?e)], archived = []\<rparr>\<rparr>"
  have h: "reaches (memoryStore ?st) (Key ''k1'') Cold ?e"
    by (simp add: reaches_def scanned_before_def js_get_def object_prototype_names_def
        key_name_Key)
  have c: "10 < accessCount (metadata ?e) + 1" by simp
  from promotion_one_step [OF h c, of 9] show ?thesis
    using h by (simp add: Let_def scanned_before_def)
qed

subsection \<open>The scope stack\<close>

lemma storeContext_frame [simp]:
  "scopeStack (storeContext stringify now k v options st) = scopeStack st"
  "contextGraph (storeContext stringify now k v options st) = contextGraph st"
  by (simp_all add: storeContext_def Let_def)

lemma retrieve_loop_frame:
  "scopeStack (snd (retrieve_loop now k st ts)) = scopeStack st \<and>
   contextGraph (snd (retrieve_loop now k st ts)) = contextGraph st"
proof (induction ts)
  case Nil
  then show ?case by simp
next
  case (Cons t ts)
  then show ?case
    by (cases "js_get (tier_obj (memoryStore st) t) k") (simp_all add: Let_def split: option.splits)
qed

lemma retrieveContext_frame [simp]:
  "scopeStack (snd (retrieveContext now k st)) = scopeStack st"
  "contextGraph (snd (retrieveContext now k st)) = contextGraph st"
  unfolding retrieveContext_def using retrieve_loop_frame by blast+

lemma tier_step_frame [simp]:
  "scopeStack (tier_step stringify st a) = scopeStack st"
  "contextGraph (tier_step stringify st a) = contextGraph st"
  by (cases a; simp)+

lemma pushScope_result:
  "fst (pushScope sid now c st) = Scope sid c now (getCurrentScope st)"
  "scopeStack (snd (pushScope sid now c st)) = scopeStack st @ [fst (pushScope sid now c st)]"
  "memoryStore (snd (pushScope sid now c st)) = memoryStore st"
  "nodes (contextGraph (snd (pushScope sid now c st))) =
     nodes (contextGraph st) @ [scope_node (fst (pushScope sid now c st))]"
  "edges (contextGraph (snd (pushScope sid now c st))) =
     edges (contextGraph st) @ scope_edges (fst (pushScope sid now c st))"
  by (simp_all add: pushScope_def updateContextGraph_def Let_def scope_node_def scope_edges_def
      split: option.splits)

lemma popScope_result:
  "scopeStack st \<noteq> [] \<Longrightarrow> fst (popScope stringify now st) = Inr (last (scopeStack st))"
  "scopeStack (snd (popScope stringify now st)) = butlast (scopeStack st)"
  "contextGraph (snd (popScope stringify now st)) = contextGraph st"
  by (simp_all add: popScope_def archiveScope_def Let_def)

lemma push_all_stack:
  "scopeStack (snd (push_all ins st)) = scopeStack st @ fst (push_all ins st) \<and>
   length (fst (push_all ins st)) = length ins"
  by (induction ins st rule: push_all.induct) (simp_all add: Let_def pushScope_result(2))

lemma push_all_append:
  "push_all (xs @ ys) st =
     (fst (push_all xs st) @ fst (push_all ys (snd (push_all xs st))),
      snd (push_all ys (snd (push_all xs st))))"
  by (induction xs st rule: push_all.induct) (simp_all add: Let_def)

lemma push_all_parent:
  assumes "i < length ins"
  shows "parent (fst (push_all ins st) ! i) = getCurrentScope (snd (push_all (take i ins) st))"
proof -
  obtain sid now c where x: "ins ! i = (sid, now, c)" by (cases "ins ! i")
  have ins: "ins = take i ins @ (sid, now, c) # drop (Suc i) ins"
    using assms x by (metis id_take_nth_drop)
  have len: "length (fst (push_all (take i ins) st)) = i"
    using assms by (simp add: push_all_stack)
  have "fst (push_all ins st) ! i =
          fst (pushScope sid now c (snd (push_all (take i ins) st)))"
    by (subst ins) (simp add: push_all_append Let_def nth_append len)
  then show ?thesis by (simp add: pushScope_result(1))
qed

lemma pop_all_stack:
  "length nows \<le> length (scopeStack st) \<Longrightarrow>
   fst (pop_all stringify nows st) = map Inr (take (length nows) (rev (scopeStack st))) \<and>
   scopeStack (snd (pop_all stringify nows st)) =
     take (length (scopeStack st) - length nows) (scopeStack st)"
proof (induction nows arbitrary: st)
  case Nil
  then show ?case by simp
next
  case (Cons now nows)
  then have ne: "scopeStack st \<noteq> []" by auto
  let ?st' = "snd (popScope stringify now st)"
  have st': "scopeStack ?st' = butlast (scopeStack st)" by (rule popScope_result(2))
  have le: "length nows \<le> length (scopeStack ?st')" using Cons.prems by (simp add: st')
  obtain ys y where xs: "scopeStack st = ys @ [y]"
    using ne by (metis append_butlast_last_id)
  from Cons.IH [OF le] show ?case
    using ne by (simp add: Let_def popScope_result(1) st' xs)
qed

lemma push_all_take:
  "fst (push_all (take i ins) st) = take i (fst (push_all ins st))"
proof -
  have "push_all ins st = push_all (take i ins @ drop i ins) st" by simp
  also have "fst \<dots> = fst (push_all (take i ins) st) @
      fst (push_all (drop i ins) (snd (push_all (take i ins) st)))"
    by (simp only: push_all_append fst_conv)
  finally show ?thesis by (simp add: push_all_stack min_def)
qed

lemma push_all_parent_prev:
  assumes "i < length ins"
  shows "parent (fst (push_all ins st) ! i) =
           (if i = 0 then getCurrentScope st else Some (fst (push_all ins st) ! (i - 1)))"
proof (cases i)
  case 0
  then show ?thesis using push_all_parent [OF assms, of st] by simp
next
  case (Suc j)
  have len: "length (fst (push_all ins st)) = length ins" by (simp add: push_all_stack)
  have "scopeStack (snd (push_all (take i ins) st)) = scopeStack st @ take i (fst (push_all ins st))"
    using push_all_stack [of "take i ins" st] by (simp add: push_all_take)
  moreover have "take i (fst (push_all ins st)) \<noteq> []" using assms Suc len by auto
  moreover have "last (take i (fst (push_all ins st))) = fst (push_all ins st) ! j"
    using assms Suc len by (simp add: take_Suc_conv_app_nth)
  ultimately show ?thesis
    using push_all_parent [OF assms, of st] Suc by (simp add: getCurrentScope_def)
qed

text \<open>
  C2. After the pushes \<open>ins\<close> and then the pops \<open>nows\<close> (no more pops than pushes), the
  pops return the pushed scope instances in the reverse order of the pushes, each equal to
  the instance its push returned (so with the parent it was created with); the stack is the
  stack before the pushes followed by the instances not yet popped; and the parent of each
  pushed instance is the top of the stack at the moment of its push: the instance pushed just
  before it, or for the first push the top of the stack the pushes started from (none when
  that stack was empty).
\<close>

theorem lifo_integrity:
  assumes "length nows \<le> length ins"
  shows "let fs = fst (push_all ins st);
             r = pop_all stringify nows (snd (push_all ins st))
         in fst r = map Inr (take (length nows) (rev fs)) \<and>
            scopeStack (snd r) = scopeStack st @ take (length ins - length nows) fs \<and>
            (\<forall>i<length ins. parent (fs ! i) = getCurrentScope (snd (push_all (take i ins) st))) \<and>
            (\<forall>i<length ins. parent (fs ! i) =
                               (if i = 0 then getCurrentScope st else Some (fs ! (i - 1))))"
proof -
  let ?fs = "fst (push_all ins st)"
  let ?st1 = "snd (push_all ins st)"
  have stack: "scopeStack ?st1 = scopeStack st @ ?fs" and len: "length ?fs = length ins"
    by (simp_all add: push_all_stack)
  have "length nows \<le> length (scopeStack ?st1)" using assms by (simp add: stack len)
  from pop_all_stack [OF this, of stringify]
  have "fst (pop_all stringify nows ?st1) = map Inr (take (length nows) (rev ?fs))"
    and "scopeStack (snd (pop_all stringify nows ?st1)) =
           scopeStack st @ take (length ins - length nows) ?fs"
    using assms by (simp_all add: stack len)
  then show ?thesis
    using push_all_parent [of _ ins st] push_all_parent_prev [of _ ins st]
    by (simp add: Let_def)
qed

theorem lifo_integrity_witness:
  "let ins = [(''s1'', 1, 10), (''s2'', 2, 20 :: nat)];
       f1 = Scope ''s1'' 10 1 None;
       f2 = Scope ''s2'' 20 2 (Some f1);
       r = pop_all (\<lambda>v. v) [3, 4] (snd (push_all ins init))
   in length [3, 4 :: int] \<le> length ins \<and>
      fst (push_all ins init) = [f1, f2] \<and>
      fst r = [Inr f2, Inr f1] \<and>
      scopeStack (snd r) = []"
  using lifo_integrity [where nows = "[3, 4]" and ins = "[(''s1'', 1, 10), (''s2'', 2, 20 :: nat)]"
      and stringify = "\<lambda>v. v" and st = init]
  by (simp add: Let_def pushScope_def getCurrentScope_def updateContextGraph_def init_def)

subsection \<open>The context graph\<close>

lemma pushed_length: "length (pushed stringify st ops) = length (filter is_push ops)"
  by (induction stringify st ops rule: pushed.induct) simp_all

lemma run_graph:
  "nodes (contextGraph (foldl (step stringify) st ops)) =
     nodes (contextGraph st) @ map scope_node (pushed stringify st ops) \<and>
   edges (contextGraph (foldl (step stringify) st ops)) =
     edges (contextGraph st) @ concat (map scope_edges (pushed stringify st ops))"
  by (induction stringify st ops rule: pushed.induct)
    (simp_all add: pushScope_result popScope_result)

lemma push_parent_iff: "parent (fst (pushScope sid now c st)) \<noteq> None \<longleftrightarrow> scopeStack st \<noteq> []"
  by (simp add: pushScope_result getCurrentScope_def)

lemma length_scope_edges: "length (concat (map scope_edges fs)) = length (filter (\<lambda>f. parent f \<noteq> None) fs)"
  by (induction fs) (simp_all add: scope_edges_def split: option.splits)

text \<open>
  C9. Over any run of pushes, pops, stores, retrievals and maintenance passes, the nodes of
  the context graph are the nodes before the run followed by one node per push, in order,
  and its edges are the edges before the run followed by one parent-child edge for each
  pushed scope that has a parent, from the parent's id to the scope's id. So a run with \<open>K\<close>
  pushes, \<open>M\<close> of them with a parent, adds \<open>K\<close> nodes and \<open>M\<close> edges (from the empty graph:
  has \<open>K\<close> nodes and \<open>M\<close> edges), and nothing is removed. A pushed scope has a parent exactly
  when the stack was not empty at its push.
\<close>

theorem graph_counts:
  "let g = contextGraph (st :: 'c hypermind);
       g' = contextGraph (run stringify st ops);
       fs = pushed stringify st ops
   in nodes g' = nodes g @ map scope_node fs \<and>
      edges g' = edges g @ concat (map scope_edges fs) \<and>
      length (nodes g') = length (nodes g) + length (filter is_push ops) \<and>
      length (edges g') = length (edges g) + length (filter (\<lambda>f. parent f \<noteq> None) fs) \<and>
      (\<forall>sid now scopeConfig (s :: 'c hypermind).
         (parent (fst (pushScope sid now scopeConfig s)) \<noteq> None) = (scopeStack s \<noteq> []))"
proof -
  have "\<forall>sid now scopeConfig (s :: 'c hypermind).
          (parent (fst (pushScope sid now scopeConfig s)) \<noteq> None) = (scopeStack s \<noteq> [])"
    using push_parent_iff by blast
  then show ?thesis
    using run_graph [of stringify st ops]
    by (simp add: run_def Let_def pushed_length length_scope_edges)
qed

theorem graph_counts_witness:
  "let ops = [Push ''P'' 1 (0::nat), Push ''C'' 2 1, Pop 3];
       g' = contextGraph (run (\<lambda>v. v) init ops)
   in length (nodes g') = 2 \<and>
      edges g' = [\<lparr>edge_from = ''P'', edge_to = ''C'', edge_type = ''parent-child''\<rparr>]"
  using graph_counts [where st = "init :: nat hypermind" and stringify = "\<lambda>v. v"
      and ops = "[Push ''P'' 1 (0::nat), Push ''C'' 2 1, Pop 3]"]
  by (simp add: Let_def init_def pushScope_def getCurrentScope_def updateContextGraph_def
      scope_edges_def)

subsection \<open>The maintenance pass\<close>

lemma foldl_invariant:
  "P s \<Longrightarrow> (\<And>s x. P s \<Longrightarrow> x \<in> set xs \<Longrightarrow> P (f s x)) \<Longrightarrow> P (foldl f s xs)"
  by (induction xs arbitrary: s) simp_all

lemma shrunk_refl: "shrunk m m"
  by (simp add: shrunk_def)

lemma shrunk_delete:
  assumes "shrunk m m'" and "t \<noteq> Archived"
  shows "shrunk m (set_tier t (js_delete (tier_obj m' t) k) m')"
proof -
  have a: "archived (set_tier t obj m') = archived m'" for obj
    using assms(2) by (cases t) simp_all
  show ?thesis
    using assms(1)
    unfolding shrunk_def tier_obj_set_tier a
    by (auto simp: set_js_delete map_of_js_delete)
qed

lemma dedup_entry_shrunk:
  "shrunk m (snd sm) \<Longrightarrow> t \<noteq> Archived \<Longrightarrow> shrunk m (snd (dedup_entry stringify t sm p))"
  by (simp add: dedup_entry_def Let_def shrunk_delete)

lemma dedup_tier_shrunk:
  "shrunk m (snd sm) \<Longrightarrow> t \<noteq> Archived \<Longrightarrow> shrunk m (snd (dedup_tier stringify sm t))"
  unfolding dedup_tier_def
  by (rule foldl_invariant [where P = "\<lambda>sm. shrunk m (snd sm)"]) (simp_all add: dedup_entry_shrunk)

lemma deduplicateContexts_shrunk: "shrunk m (deduplicateContexts stringify m)"
  unfolding deduplicateContexts_def
  by (rule foldl_invariant [where P = "\<lambda>sm. shrunk m (snd sm)"])
    (auto simp: shrunk_refl intro: dedup_tier_shrunk)

text \<open>The loop of \<open>demote\<close> over the entries \<open>ps\<close>.\<close>

lemma demote_unfold:
  "demote now m p =
     (if stale now (snd p)
      then m\<lparr>warm := js_define (warm m) (fst p) (snd p), hot := js_delete (hot m) (fst p)\<rparr>
      else m)"
  by (simp add: demote_def stale_def Let_def)

lemma stale_ms:
  "stale now e \<longleftrightarrow> 86400000 < now - timestamp (metadata e) \<and> accessCount (metadata e) < 5"
  by (auto simp: stale_def field_simps)

lemma demote_loop_demoted: "demoted now ps m (foldl (demote now) m ps)"
proof (rule foldl_invariant [where P = "demoted now ps m"])
  show "demoted now ps m m" by (simp add: demoted_def)
next
  fix m' p
  assume d: "demoted now ps m m'" and p: "p \<in> set ps"
  show "demoted now ps m (demote now m' p)"
  proof (cases "stale now (snd p)")
    case False
    then show ?thesis using d by (simp add: demote_unfold)
  next
    case True
    have w: "set (js_define (warm m') (fst p) (snd p)) \<subseteq> insert p (set (warm m'))"
      using set_js_define_subset [of "warm m'" "fst p" "snd p"] by simp
    show ?thesis
      using d p True w
      unfolding demoted_def demote_unfold
      by (auto simp: set_js_delete map_of_js_delete map_of_js_define_other)
  qed
qed

lemma demote_loop_gone:
  "p \<in> set ps \<Longrightarrow> stale now (snd p) \<Longrightarrow> map_of (hot (foldl (demote now) m ps)) (fst p) = None"
proof (induction ps arbitrary: m)
  case Nil
  then show ?case by simp
next
  case (Cons q ps)
  show ?case
  proof (cases "p \<in> set ps")
    case True
    then show ?thesis using Cons by simp
  next
    case False
    then have q: "q = p" using Cons.prems by simp
    have "map_of (hot (demote now m p)) (fst p) = None"
      using Cons.prems(2) by (simp add: demote_unfold map_of_js_delete)
    moreover have "map_of (hot (foldl (demote now) m' ps)) k = None \<or>
        map_of (hot (foldl (demote now) m' ps)) k = map_of (hot m') k" for m' k
      using demote_loop_demoted [of now ps m'] by (simp add: demoted_def)
    ultimately show ?thesis by (metis q foldl_Cons)
  qed
qed

lemma demote_loop_no_stale:
  assumes "p \<in> set (hot (foldl (demote now) m (hot m)))"
  shows "\<not> stale now (snd p)"
proof
  assume s: "stale now (snd p)"
  have "p \<in> set (hot m)" using assms demote_loop_demoted [of now "hot m" m] by (auto simp: demoted_def)
  from demote_loop_gone [OF this s, of m]
  have "fst p \<notin> fst ` set (hot (foldl (demote now) m (hot m)))"
    by (simp add: map_of_eq_None_iff)
  then show False using assms by auto
qed

lemma shrunk_set: "shrunk m m' \<Longrightarrow> set (tier_obj m' t) \<subseteq> set (tier_obj m t)"
  by (simp add: shrunk_def)

lemma shrunk_map_of:
  "shrunk m m' \<Longrightarrow> map_of (tier_obj m t) k = None \<Longrightarrow> map_of (tier_obj m' t) k = None"
  unfolding shrunk_def by fastforce



lemma demote_loop_warm:
  "distinct (map fst ps) \<Longrightarrow> (k, e) \<in> set ps \<Longrightarrow> stale now e \<Longrightarrow>
   map_of (warm (foldl (demote now) m ps)) k = Some e"
proof (induction ps arbitrary: m)
  case Nil
  then show ?case by simp
next
  case (Cons q ps)
  show ?case
  proof (cases "q = (k, e)")
    case True
    have k: "k \<notin> fst ` {p \<in> set ps. stale now (snd p)}"
      using Cons.prems(1) True by auto
    have "map_of (warm (demote now m q)) k = Some e"
      using True Cons.prems by (simp add: demote_unfold map_of_js_define_same)
    moreover have "map_of (warm (foldl (demote now) (demote now m q) ps)) k =
        map_of (warm (demote now m q)) k"
      using demote_loop_demoted [of now ps "demote now m q"] k unfolding demoted_def by blast
    ultimately show ?thesis by simp
  next
    case False
    then show ?thesis using Cons by simp
  qed
qed

lemma optimizeMemory_entries:
  assumes "(k, e) \<in> set (tier_obj (optimizeMemory stringify now m) t)"
  shows "(k, e) \<in> set (tier_obj m t) \<or>
         (t = Warm \<and> (k, e) \<in> set (hot m) \<and> stale now e \<and>
          \<not> has (hot (optimizeMemory stringify now m)) k)"
proof -
  let ?D = "foldl (demote now) m (hot m)"
  let ?M = "optimizeMemory stringify now m"
  have sh: "shrunk ?D ?M" by (simp add: optimizeMemory_def deduplicateContexts_shrunk)
  have de: "demoted now (hot m) m ?D" by (rule demote_loop_demoted)
  have inD: "(k, e) \<in> set (tier_obj ?D t)" using assms shrunk_set [OF sh, of t] by auto
  show ?thesis
  proof (cases "(k, e) \<in> set (tier_obj m t)")
    case True
    then show ?thesis by simp
  next
    case False
    have c: "cold ?D = cold m" "archived ?D = archived m" "set (hot ?D) \<subseteq> set (hot m)"
      "set (warm ?D) \<subseteq> set (warm m) \<union> {p \<in> set (hot m). stale now (snd p)}"
      using de by (simp_all add: demoted_def)
    have t: "t = Warm \<and> (k, e) \<in> set (hot m) \<and> stale now e"
      using inD False c by (cases t) auto
    then have "map_of (hot ?D) k = None"
      using demote_loop_gone [of "(k, e)" "hot m" now m] by simp
    then have "map_of (hot ?M) k = None"
      using shrunk_map_of [OF sh, of Hot k] by simp
    then show ?thesis using t by (simp add: has_def)
  qed
qed

lemma optimizeMemory_no_stale:
  assumes "(k, e) \<in> set (hot (optimizeMemory stringify now m))"
  shows "\<not> stale now e"
proof -
  have "shrunk (foldl (demote now) m (hot m)) (optimizeMemory stringify now m)"
    by (simp add: optimizeMemory_def deduplicateContexts_shrunk)
  from shrunk_set [OF this, of Hot]
  have "(k, e) \<in> set (hot (foldl (demote now) m (hot m)))"
    using assms by auto
  from demote_loop_no_stale [OF this] show ?thesis by simp
qed

lemma retrieve_hit_has:
  assumes "reaches (memoryStore st) k t e"
  shows "has (tier_obj (memoryStore (snd (retrieveContext now k st))) t') k' =
     (if k' = k \<and> 10 < accessCount (metadata e) + 1 \<and> t \<noteq> Hot
      then t' = tier_above t \<or> (t' \<noteq> t \<and> has (tier_obj (memoryStore st) t') k)
      else has (tier_obj (memoryStore st) t') k')"
proof -
  have own: "map_of (tier_obj (memoryStore st) t) k = Some e"
    using assms by (simp add: reaches_def js_get_Own)
  show ?thesis
    unfolding retrieve_hit_store [OF assms] has_def
    using own tier_above_neq [of t] by (auto simp: map_of_js_delete map_of_js_define update_conv')
qed

lemma retrieve_keeps_or_lifts:
  "(has (tier_obj (memoryStore st) t) k' \<longrightarrow>
      has (tier_obj (memoryStore (snd (retrieveContext now k st))) t) k' \<or>
      has (tier_obj (memoryStore (snd (retrieveContext now k st))) (tier_above t)) k') \<and>
   (has (tier_obj (memoryStore (snd (retrieveContext now k st))) t') k' \<longrightarrow>
      has (tier_obj (memoryStore st) t') k' \<or>
      (\<exists>t. tier_above t = t' \<and> has (tier_obj (memoryStore st) t) k'))"
proof -
  consider (hit) t0 e where "reaches (memoryStore st) k t0 e"
    | (same) "snd (retrieveContext now k st) = st"
    using retrieve_cases [of st k now] by fastforce
  then show ?thesis
  proof cases
    case hit
    have own: "has (tier_obj (memoryStore st) t0) k"
      using hit by (simp add: reaches_def js_get_Own has_def)
    show ?thesis
    proof (cases "k' = k \<and> 10 < accessCount (metadata e) + 1 \<and> t0 \<noteq> Hot")
      case True
      then show ?thesis
        unfolding retrieve_hit_has [OF hit] using own by auto
    next
      case False
      then show ?thesis
        unfolding retrieve_hit_has [OF hit] by auto
    qed
  next
    case same
    then show ?thesis by simp
  qed
qed

subsection \<open>Retrieval never demotes; the maintenance pass demotes stale hot entries\<close>

text \<open>
  C5. A retrieval never moves an entry toward archived: a key that a tier holds before the
  retrieval is afterwards held by that tier or by the tier one step above, and a tier that
  holds a key afterwards held it before or is one step above a tier that did. Demotion is
  the work of the maintenance pass: an entry that a tier has after the pass and did not have
  before is in warm, was in hot, is stale (older than 24 hours, that is 86400000 milliseconds,
  and read fewer than 5 times), and its key is no longer in hot; no stale entry stays in hot;
  and the loop of the pass puts each stale hot entry into warm and takes it out of hot.
\<close>

theorem retrieval_never_demotes:
  "let m0 = memoryStore st;
       m1 = memoryStore (snd (retrieveContext now' k st));
       m' = optimizeMemory stringify now m;
       d = foldl (demote now) m (hot m)
   in (has (tier_obj m0 t) k' \<longrightarrow> has (tier_obj m1 t) k' \<or> has (tier_obj m1 (tier_above t)) k') \<and>
      (has (tier_obj m1 t) k' \<longrightarrow>
         has (tier_obj m0 t) k' \<or> (\<exists>t0. tier_above t0 = t \<and> has (tier_obj m0 t0) k')) \<and>
      ((k', e) \<in> set (tier_obj m' t) \<longrightarrow>
         (k', e) \<in> set (tier_obj m t) \<or>
         (t = Warm \<and> (k', e) \<in> set (hot m) \<and> stale now e \<and> \<not> has (hot m') k')) \<and>
      ((k', e) \<in> set (hot m') \<longrightarrow> \<not> stale now e) \<and>
      (distinct (map fst (hot m)) \<and> (k', e) \<in> set (hot m) \<and> stale now e \<longrightarrow>
         map_of (warm d) k' = Some e \<and> \<not> has (hot d) k') \<and>
      (stale now e \<longleftrightarrow>
         86400000 < now - timestamp (metadata e) \<and> accessCount (metadata e) < 5)"
proof -
  have gone: "(k', e) \<in> set (hot m) \<Longrightarrow> stale now e \<Longrightarrow>
      \<not> has (hot (foldl (demote now) m (hot m))) k'"
    using demote_loop_gone [of "(k', e)" "hot m" now m] by (simp add: has_def)
  show ?thesis
    unfolding Let_def
    using retrieve_keeps_or_lifts [of st t k' now' k t]
      optimizeMemory_entries [of k' e stringify now m t]
      optimizeMemory_no_stale [of k' e stringify now m]
      demote_loop_warm [of "hot m" k' e now m] gone stale_ms [of now e]
    by blast
qed

theorem retrieval_never_demotes_witness:
  "let e = \<lparr>key = Key ''k'', val = Plain (0::nat),
            metadata = \<lparr>timestamp = 0, accessCount = 4, significance = 1, lastAccessed = None\<rparr>\<rparr>;
       m = \<lparr>hot = [(Key ''k'', e)], warm = [], cold = [], archived = []\<rparr>;
       d = foldl (demote 90000000) m (hot m)
   in stale 90000000 e \<and> distinct (map fst (hot m)) \<and>
      map_of (warm d) (Key ''k'') = Some e \<and> \<not> has (hot d) (Key ''k'') \<and>
      warm (optimizeMemory (\<lambda>v. v) 90000000 m) = [(Key ''k'', e)] \<and>
      hot (optimizeMemory (\<lambda>v. v) 90000000 m) = []"
proof -
  let ?e = "\<lparr>key = Key ''k'', val = Plain (0::nat),
            metadata = \<lparr>timestamp = 0, accessCount = 4, significance = 1, lastAccessed = None\<rparr>\<rparr>"
  let ?m = "\<lparr>hot = [(Key ''k'', ?e)], warm = [], cold = [], archived = []\<rparr>"
  have s: "stale 90000000 ?e" by (simp add: stale_def)
  have ev: "warm (optimizeMemory (\<lambda>v. v) 90000000 ?m) = [(Key ''k'', ?e)]"
    "hot (optimizeMemory (\<lambda>v. v) 90000000 ?m) = []"
    by (simp_all add: op_defs js_defs Let_def)
  have d: "distinct (map fst (hot ?m))" and mem: "(Key ''k'', ?e) \<in> set (hot ?m)"
    by simp_all
  note T = retrieval_never_demotes [where m = ?m and k' = "Key ''k''" and e = ?e and now = 90000000
      and st = "init :: nat hypermind" and t = Hot and k = "Key ''k''" and now' = 0
      and stringify = "\<lambda>v. v", unfolded Let_def]
  from T d mem s
  have "map_of (warm (foldl (demote 90000000) ?m (hot ?m))) (Key ''k'') = Some ?e \<and>
        \<not> has (hot (foldl (demote 90000000) ?m (hot ?m))) (Key ''k'')"
    by blast
  then show ?thesis using s ev d unfolding Let_def by blast
qed

lemma has_iff: "has obj k \<longleftrightarrow> k \<in> fst ` set obj"
  by (simp add: has_def map_of_eq_None_iff)

lemma optimizeMemory_has:
  assumes "has (tier_obj (optimizeMemory stringify now m) t) k"
  shows "has (tier_obj m t) k \<or> (t = Warm \<and> has (hot m) k)"
proof -
  from assms obtain e where "(k, e) \<in> set (tier_obj (optimizeMemory stringify now m) t)"
    by (auto simp: has_iff)
  from optimizeMemory_entries [OF this] show ?thesis
    by (force simp: has_iff)
qed

lemma optimizeMemory_archived: "archived (optimizeMemory stringify now m) = archived m"
  using deduplicateContexts_shrunk [of "foldl (demote now) m (hot m)" stringify]
    demote_loop_demoted [of now "hot m" m]
  by (simp add: optimizeMemory_def shrunk_def demoted_def)

subsection \<open>Archival on pop\<close>

lemma popScope_store:
  assumes "scopeStack st \<noteq> []"
  shows "memoryStore (snd (popScope stringify now st)) =
     optimizeMemory stringify now
       ((memoryStore st)\<lparr>archived :=
           js_define (archived (memoryStore st))
             (Key (''scope_'' @ scope_id (last (scopeStack st))))
             (archive_entry now (last (scopeStack st)))\<rparr>)"
  using assms
  by (simp add: popScope_def archiveScope_def storeContext_def Let_def archive_entry_def)

lemma scope_key_ordinary: "key_name (Key (''scope_'' @ sid)) \<notin> set object_prototype_names"
  by (simp add: key_name_Key object_prototype_names_def)

text \<open>
  For a key that does not name a member of \<^verbatim>\<open>Object.prototype\<close>, the scan comes to the
  entry of the first tier, in the order of the scan, that holds the key.
\<close>

lemma reaches_first_holder:
  assumes "key_name k \<notin> set object_prototype_names"
  shows "reaches m k t e \<longleftrightarrow>
           map_of (tier_obj m t) k = Some e \<and>
           list_all (\<lambda>u. \<not> has (tier_obj m u) k) (scanned_before t)"
proof -
  have "js_get (tier_obj m u) k = Undefined \<longleftrightarrow> \<not> has (tier_obj m u) k" for u
    using assms by (simp add: js_get_def has_def split: option.splits)
  then show ?thesis by (simp add: reaches_def js_get_Own)
qed

text \<open>
  C3, as the code has it. On a non-empty stack \<^verbatim>\<open>popScope\<close> returns the top instance \<open>F\<close>;
  the stack is the old one without its last element, and no longer contains \<open>F\<close> when it
  held each instance once (as every stack built by pushes does); the archived tier holds
  under the key \<^verbatim>\<open>"scope_" + F.id\<close> an entry with the value \<open>F\<close>, access count 0 and
  significance 1. A retrieval of that key returns \<open>F\<close> when none of hot, warm and cold holds
  the key after the pop, and that is so whenever none of them held it before the pop. In
  general the retrieval returns the value of the entry that the first tier holding the key
  after the pop, in the order of the scan, has under it.
\<close>

theorem pop_archives:
  assumes "scopeStack st \<noteq> []"
  shows "let F = last (scopeStack st);
             K = Key (''scope_'' @ scope_id F);
             r = popScope stringify now st;
             m = memoryStore st;
             m' = memoryStore (snd r)
         in fst r = Inr F \<and>
            scopeStack (snd r) = butlast (scopeStack st) \<and>
            (distinct (scopeStack st) \<longrightarrow> F \<notin> set (scopeStack (snd r))) \<and>
            map_of (archived m') K =
              Some \<lparr>key = K, val = ScopeObj F,
                    metadata = \<lparr>timestamp = now, accessCount = 0, significance = 1,
                                lastAccessed = None\<rparr>\<rparr> \<and>
            (list_all (\<lambda>t. \<not> has (tier_obj m' t) K) [Hot, Warm, Cold] \<longrightarrow>
               fst (retrieveContext now' K (snd r)) = Inr (Some (ScopeObj F))) \<and>
            (list_all (\<lambda>t. \<not> has (tier_obj m t) K) [Hot, Warm, Cold] \<longrightarrow>
               list_all (\<lambda>t. \<not> has (tier_obj m' t) K) [Hot, Warm, Cold]) \<and>
            (map_of (tier_obj m' t) K = Some e \<and>
             list_all (\<lambda>u. \<not> has (tier_obj m' u) K) (scanned_before t) \<longrightarrow>
               fst (retrieveContext now' K (snd r)) = Inr (Some (val e)))"
proof -
  define F where "F = last (scopeStack st)"
  define K where "K = Key (''scope_'' @ scope_id F)"
  define a where "a = archive_entry now F"
  let ?r = "popScope stringify now st"
  let ?m = "memoryStore st"
  let ?m1 = "?m\<lparr>archived := js_define (archived ?m) K a\<rparr>"
  let ?M = "memoryStore (snd ?r)"
  have K: "key_name K \<notin> set object_prototype_names"
    unfolding K_def by (rule scope_key_ordinary)
  have M: "?M = optimizeMemory stringify now ?m1"
    unfolding K_def a_def F_def by (rule popScope_store [OF assms])
  have arch: "map_of (archived ?M) K = Some a"
    by (simp add: M optimizeMemory_archived map_of_js_define_same)
  have hit: "fst (retrieveContext now' K (snd ?r)) = Inr (Some (val e'))"
    if "reaches ?M K t' e'" for t' e'
    using retrieve_hit [OF that, of now'] by simp
  have first: "fst (retrieveContext now' K (snd ?r)) = Inr (Some (val e))"
    if "map_of (tier_obj ?M t) K = Some e"
      "list_all (\<lambda>u. \<not> has (tier_obj ?M u) K) (scanned_before t)"
    using hit [of t e] that by (simp add: reaches_first_holder [OF K])
  have clear: "fst (retrieveContext now' K (snd ?r)) = Inr (Some (ScopeObj F))"
    if "list_all (\<lambda>t. \<not> has (tier_obj ?M t) K) [Hot, Warm, Cold]"
  proof -
    have "js_get (tier_obj ?M u) K = Undefined" if "u \<noteq> Archived" for u
      using \<open>list_all (\<lambda>t. \<not> has (tier_obj ?M t) K) [Hot, Warm, Cold]\<close> that K
      by (cases u) (simp_all add: js_get_def has_def)
    from this [of Hot] this [of Warm] this [of Cold]
    have "reaches ?M K Archived a"
      using arch by (simp add: reaches_def scanned_before_def js_get_Own)
    from hit [OF this] show ?thesis by (simp add: a_def archive_entry_def)
  qed
  have keep: "list_all (\<lambda>t. \<not> has (tier_obj ?M t) K) [Hot, Warm, Cold]"
    if b: "list_all (\<lambda>t. \<not> has (tier_obj ?m t) K) [Hot, Warm, Cold]"
  proof -
    have before: "\<not> has (tier_obj ?m u) K" if "u \<noteq> Archived" for u
      using b that by (cases u) simp_all
    have "\<not> has (tier_obj ?M u) K" if "u \<noteq> Archived" for u
    proof
      assume "has (tier_obj ?M u) K"
      then have "has (tier_obj ?m1 u) K \<or> (u = Warm \<and> has (hot ?m1) K)"
        unfolding M by (rule optimizeMemory_has)
      then show False using before [of u] before [of Hot] that by (cases u) simp_all
    qed
    from this [of Hot] this [of Warm] this [of Cold] show ?thesis by simp
  qed
  have res: "fst ?r = Inr F" "scopeStack (snd ?r) = butlast (scopeStack st)"
    using assms by (simp_all add: popScope_result F_def)
  have notin: "F \<notin> set (scopeStack (snd ?r))" if "distinct (scopeStack st)"
  proof -
    have "distinct (butlast (scopeStack st) @ [F])"
      unfolding F_def using assms that by (metis append_butlast_last_id)
    then show ?thesis by (simp add: res(2))
  qed
  have "fst ?r = Inr F \<and>
        scopeStack (snd ?r) = butlast (scopeStack st) \<and>
        (distinct (scopeStack st) \<longrightarrow> F \<notin> set (scopeStack (snd ?r))) \<and>
        map_of (archived ?M) K = Some a \<and>
        (list_all (\<lambda>t. \<not> has (tier_obj ?M t) K) [Hot, Warm, Cold] \<longrightarrow>
           fst (retrieveContext now' K (snd ?r)) = Inr (Some (ScopeObj F))) \<and>
        (list_all (\<lambda>t. \<not> has (tier_obj ?m t) K) [Hot, Warm, Cold] \<longrightarrow>
           list_all (\<lambda>t. \<not> has (tier_obj ?M t) K) [Hot, Warm, Cold]) \<and>
        (map_of (tier_obj ?M t) K = Some e \<and>
         list_all (\<lambda>u. \<not> has (tier_obj ?M u) K) (scanned_before t) \<longrightarrow>
           fst (retrieveContext now' K (snd ?r)) = Inr (Some (val e)))"
    using res notin arch clear keep first by blast
  then show ?thesis
    unfolding Let_def a_def archive_entry_def K_def F_def .
qed

theorem pop_archives_witness:
  "let st = snd (pushScope ''s1'' 1 (0::nat) init);
       F = Scope ''s1'' 0 1 None;
       r = popScope (\<lambda>v. v) 3 st
   in scopeStack st = [F] \<and> distinct (scopeStack st) \<and>
      list_all (\<lambda>t. \<not> has (tier_obj (memoryStore st) t) (Key ''scope_s1'')) [Hot, Warm, Cold] \<and>
      fst r = Inr F \<and> scopeStack (snd r) = [] \<and> F \<notin> set (scopeStack (snd r)) \<and>
      fst (retrieveContext 4 (Key ''scope_s1'') (snd r)) = Inr (Some (ScopeObj F))"
proof -
  let ?F = "Scope ''s1'' (0::nat) 1 None"
  let ?st = "snd (pushScope ''s1'' 1 (0::nat) init)"
  have st: "scopeStack ?st = [?F]"
    "memoryStore ?st = \<lparr>hot = [], warm = [], cold = [], archived = []\<rparr>"
    by (simp_all add: op_defs Let_def)
  have a: "scopeStack ?st \<noteq> []" and d: "distinct (scopeStack ?st)"
    and c: "list_all (\<lambda>t. \<not> has (tier_obj (memoryStore ?st) t) (Key ''scope_s1''))
              [Hot, Warm, Cold]"
    unfolding st by (simp_all add: has_def)
  note T = pop_archives [OF a, where stringify = "\<lambda>v. v" and now = 3 and now' = 4
      and t = Hot and e = undefined, unfolded Let_def st]
  have k: "Key (''scope_'' @ scope_id (last [?F])) = Key ''scope_s1''" by simp
  from T c d show ?thesis
    unfolding Let_def st k by simp
qed

text \<open>
  The retrieval can return something else than the popped instance: the scan finds an entry
  of hot, warm or cold first. Here a scope is pushed, a value is stored in hot under the key
  its archive entry will get, and the scope is popped.
\<close>

theorem pop_archives_shadowed:
  "let st = snd (pushScope ''s1'' 1 (0::nat) init);
       st2 = storeContext (\<lambda>v. v) 2 (Key ''scope_s1'') (Plain 5) no_options st;
       r = popScope (\<lambda>v. v) 3 st2
   in fst r = Inr (Scope ''s1'' 0 1 None) \<and>
      fst (retrieveContext 4 (Key ''scope_s1'') (snd r)) = Inr (Some (Plain 5)) \<and>
      fst (retrieveContext 4 (Key ''scope_s1'') (snd r)) \<noteq>
        Inr (Some (ScopeObj (Scope ''s1'' 0 1 None)))"
proof -
  let ?F = "Scope ''s1'' (0::nat) 1 None"
  let ?g = "\<lparr>nodes = [\<lparr>node_id = ''s1'', node_type = ''scope'', node_data = ?F\<rparr>], edges = []\<rparr>"
  let ?e = "\<lparr>key = Key ''scope_s1'', val = Plain (5::nat),
            metadata = \<lparr>timestamp = 2, accessCount = 0, significance = 1, lastAccessed = None\<rparr>\<rparr>"
  let ?a = "\<lparr>key = Key ''scope_s1'', val = ScopeObj ?F,
            metadata = \<lparr>timestamp = 3, accessCount = 0, significance = 1, lastAccessed = None\<rparr>\<rparr>"
  let ?st = "snd (pushScope ''s1'' 1 (0::nat) init)"
  let ?st2 = "storeContext (\<lambda>v. v) 2 (Key ''scope_s1'') (Plain 5) no_options ?st"
  let ?r = "popScope (\<lambda>v. v) 3 ?st2"
  have 1: "?st = \<lparr>memoryStore = \<lparr>hot = [], warm = [], cold = [], archived = []\<rparr>,
                   scopeStack = [?F], contextGraph = ?g\<rparr>"
    by (simp add: pushScope_def getCurrentScope_def updateContextGraph_def init_def Let_def)
  have 2: "?st2 = \<lparr>memoryStore = \<lparr>hot = [(Key ''scope_s1'', ?e)], warm = [], cold = [],
                                    archived = []\<rparr>,
                   scopeStack = [?F], contextGraph = ?g\<rparr>"
    unfolding 1 by (simp add: op_defs js_defs Let_def)
  have 3: "?r = (Inr ?F,
                 \<lparr>memoryStore = \<lparr>hot = [(Key ''scope_s1'', ?e)], warm = [], cold = [],
                                  archived = [(Key ''scope_s1'', ?a)]\<rparr>,
                  scopeStack = [], contextGraph = ?g\<rparr>)"
    unfolding 2 by (simp add: op_defs js_defs Let_def)
  have 4: "fst (retrieveContext 4 (Key ''scope_s1'') (snd ?r)) = Inr (Some (Plain 5))"
    unfolding 3 by (simp add: op_defs js_defs Let_def)
  show ?thesis
    unfolding Let_def using 3 4 by simp
qed

subsection \<open>Tier exclusivity\<close>

lemma tiers_holding_Nil: "tiers_holding m k = [] \<longleftrightarrow> (\<forall>t. \<not> has (tier_obj m t) k)"
proof
  assume "tiers_holding m k = []"
  then have "\<not> has (tier_obj m Hot) k \<and> \<not> has (tier_obj m Warm) k \<and>
             \<not> has (tier_obj m Cold) k \<and> \<not> has (tier_obj m Archived) k"
    by (simp add: tiers_holding_def split: if_splits)
  then show "\<forall>t. \<not> has (tier_obj m t) k" by (metis tier.exhaust)
next
  assume "\<forall>t. \<not> has (tier_obj m t) k"
  then show "tiers_holding m k = []" by (simp add: tiers_holding_def)
qed

lemma exclusive_iff:
  "exclusive m k \<longleftrightarrow> (\<forall>t t'. has (tier_obj m t) k \<and> has (tier_obj m t') k \<longrightarrow> t = t')"
proof
  assume e: "exclusive m k"
  show "\<forall>t t'. has (tier_obj m t) k \<and> has (tier_obj m t') k \<longrightarrow> t = t'"
  proof (intro allI impI)
    fix t t' assume "has (tier_obj m t) k \<and> has (tier_obj m t') k"
    then show "t = t'"
      using e by (cases t; cases t') (simp_all add: exclusive_def tiers_holding_def split: if_splits)
  qed
next
  assume a: "\<forall>t t'. has (tier_obj m t) k \<and> has (tier_obj m t') k \<longrightarrow> t = t'"
  have d: "\<not> (has (tier_obj m t) k \<and> has (tier_obj m t') k)" if "t \<noteq> t'" for t t'
    using a that by blast
  from d [of Hot Warm] d [of Hot Cold] d [of Hot Archived] d [of Warm Cold] d [of Warm Archived]
    d [of Cold Archived]
  show "exclusive m k"
    by (simp add: exclusive_def tiers_holding_def)
qed

lemma retrieve_exclusive:
  assumes "exclusive (memoryStore st) k'"
  shows "exclusive (memoryStore (snd (retrieveContext now k st))) k'"
proof -
  consider (hit) t0 e where "reaches (memoryStore st) k t0 e"
    | (same) "snd (retrieveContext now k st) = st"
    using retrieve_cases [of st k now] by fastforce
  then show ?thesis
  proof cases
    case hit
    have own: "has (tier_obj (memoryStore st) t0) k"
      using hit by (simp add: reaches_def js_get_Own has_def)
    show ?thesis
    proof (cases "k' = k \<and> 10 < accessCount (metadata e) + 1 \<and> t0 \<noteq> Hot")
      case True
      have "has (tier_obj (memoryStore st) t) k \<Longrightarrow> t = t0" for t
        using assms own True by (auto simp: exclusive_iff)
      then show ?thesis
        unfolding exclusive_iff retrieve_hit_has [OF hit] using True by auto
    next
      case False
      then show ?thesis
        using assms unfolding exclusive_iff retrieve_hit_has [OF hit] by auto
    qed
  next
    case same
    then show ?thesis using assms by simp
  qed
qed

lemma retrieve_absent:
  assumes "tiers_holding (memoryStore st) k' = []"
  shows "tiers_holding (memoryStore (snd (retrieveContext now k st))) k' = []"
  using assms retrieve_keeps_or_lifts [of st _ k' now k]
  unfolding tiers_holding_Nil by blast

lemma optimizeMemory_absent:
  assumes "tiers_holding m k = []"
  shows "tiers_holding (optimizeMemory stringify now m) k = []"
  using assms optimizeMemory_has [of stringify now m _ k]
  unfolding tiers_holding_Nil by (metis tier_obj.simps(1))

lemma optimizeMemory_exclusive:
  assumes "exclusive m k"
  shows "exclusive (optimizeMemory stringify now m) k"
  unfolding exclusive_iff
proof (intro allI impI)
  let ?M = "optimizeMemory stringify now m"
  fix t t' assume h: "has (tier_obj ?M t) k \<and> has (tier_obj ?M t') k"
  have src: "has (tier_obj m u) k \<or> (u = Warm \<and> has (hot m) k \<and> \<not> has (hot ?M) k)"
    if "has (tier_obj ?M u) k" for u
  proof -
    from that obtain e where "(k, e) \<in> set (tier_obj ?M u)" by (auto simp: has_iff)
    from optimizeMemory_entries [OF this] show ?thesis by (force simp: has_iff)
  qed
  have ex: "has (tier_obj m u) k \<Longrightarrow> has (tier_obj m u') k \<Longrightarrow> u = u'" for u u'
    using assms by (auto simp: exclusive_iff)
  have hot: "has (hot m) k \<Longrightarrow> has (tier_obj m u) k \<Longrightarrow> u = Hot" for u
    using ex [of Hot u] by simp
  from src [of t] src [of t'] h show "t = t'"
    using ex [of t t'] hot [of t] hot [of t'] by (cases t; cases t') auto
qed

lemma storeContext_store:
  "memoryStore (storeContext stringify now k v options st) =
     optimizeMemory stringify now
       (set_tier (case opt_tier options of Some t \<Rightarrow> t | None \<Rightarrow> Hot)
          (js_define (tier_obj (memoryStore st) (case opt_tier options of Some t \<Rightarrow> t | None \<Rightarrow> Hot)) k
             \<lparr>key = k, val = v,
              metadata = \<lparr>timestamp = now, accessCount = 0,
                          significance = (case opt_significance options of
                                            Some s \<Rightarrow> if s = 0 then 1 else s | None \<Rightarrow> 1),
                          lastAccessed = None\<rparr>\<rparr>)
          (memoryStore st))"
  by (simp add: storeContext_def Let_def)

lemma has_put_other: "k' \<noteq> k \<Longrightarrow> has (tier_obj (set_tier t (js_define (tier_obj m t) k e) m) t') k' = has (tier_obj m t') k'"
  by (simp add: tier_obj_set_tier has_def map_of_js_define_other)

lemma has_put_subset:
  "has (tier_obj (set_tier t (js_define (tier_obj m t) k e) m) t') k \<Longrightarrow> t' = t \<or> has (tier_obj m t') k"
  by (simp add: tier_obj_set_tier split: if_splits)

lemma store_other_exclusive:
  assumes "exclusive (memoryStore st) k" and "k' \<noteq> k"
  shows "exclusive (memoryStore (storeContext stringify now k' v options st)) k"
  unfolding storeContext_store
  using assms by (intro optimizeMemory_exclusive) (simp add: exclusive_iff has_put_other)

lemma store_other_absent:
  assumes "tiers_holding (memoryStore st) k = []" and "k' \<noteq> k"
  shows "tiers_holding (memoryStore (storeContext stringify now k' v options st)) k = []"
  unfolding storeContext_store
  using assms by (intro optimizeMemory_absent) (simp add: tiers_holding_Nil has_put_other)

lemma store_fresh_exclusive:
  assumes "tiers_holding (memoryStore st) k = []"
  shows "exclusive (memoryStore (storeContext stringify now k v options st)) k"
  unfolding storeContext_store
proof (intro optimizeMemory_exclusive)
  let ?t = "case opt_tier options of Some t \<Rightarrow> t | None \<Rightarrow> Hot"
  fix e
  have "has (tier_obj (set_tier ?t (js_define (tier_obj (memoryStore st) ?t) k e) (memoryStore st)) u) k
          \<Longrightarrow> u = ?t" for u e
    using has_put_subset [of ?t "memoryStore st" k e u] assms by (auto simp: tiers_holding_Nil)
  then show "exclusive (set_tier ?t (js_define (tier_obj (memoryStore st) ?t) k e) (memoryStore st)) k" for e
    unfolding exclusive_iff by blast
qed

lemma tier_step_exclusive:
  "exclusive (memoryStore st) k \<Longrightarrow> \<not> stores_key k a \<Longrightarrow>
   exclusive (memoryStore (tier_step stringify st a)) k"
  by (cases a) (simp_all add: store_other_exclusive retrieve_exclusive optimizeMemory_exclusive)

lemma tier_step_absent:
  "tiers_holding (memoryStore st) k = [] \<Longrightarrow> \<not> stores_key k a \<Longrightarrow>
   tiers_holding (memoryStore (tier_step stringify st a)) k = []"
  by (cases a) (simp_all add: store_other_absent retrieve_absent optimizeMemory_absent)

lemma tier_step_fresh:
  "tiers_holding (memoryStore st) k = [] \<Longrightarrow> exclusive (memoryStore (tier_step stringify st a)) k"
proof (cases "stores_key k a")
  case True
  assume "tiers_holding (memoryStore st) k = []"
  then show ?thesis using True by (cases a) (simp_all add: store_fresh_exclusive)
next
  case False
  assume a: "tiers_holding (memoryStore st) k = []"
  from tier_step_absent [OF a False, of stringify]
  show ?thesis by (simp add: exclusive_def)
qed

lemma tier_run_exclusive:
  "exclusive (memoryStore st) k \<Longrightarrow> filter (stores_key k) ops = [] \<Longrightarrow>
   exclusive (memoryStore (tier_run stringify st ops)) k"
  unfolding tier_run_def
  by (induction ops arbitrary: st) (simp_all add: tier_step_exclusive split: if_splits)

lemma tier_run_stored_once:
  "tiers_holding (memoryStore st) k = [] \<Longrightarrow> length (filter (stores_key k) ops) \<le> 1 \<Longrightarrow>
   exclusive (memoryStore (tier_run stringify st ops)) k"
proof (induction ops arbitrary: st)
  case Nil
  then show ?case by (simp add: tier_run_def exclusive_def)
next
  case (Cons a ops)
  show ?case
  proof (cases "stores_key k a")
    case True
    then have "filter (stores_key k) ops = []" using Cons.prems(2) by simp
    from tier_run_exclusive [OF tier_step_fresh [OF Cons.prems(1)] this]
    show ?thesis by (simp add: tier_run_def)
  next
    case False
    from tier_step_absent [OF Cons.prems(1) False]
    have "tiers_holding (memoryStore (tier_step stringify st a)) k = []" .
    from Cons.IH [OF this] show ?thesis
      using Cons.prems(2) False by (simp add: tier_run_def)
  qed
qed

lemma filter_take_length: "length (filter P (take n xs)) \<le> length (filter P xs)"
proof -
  have "filter P xs = filter P (take n xs) @ filter P (drop n xs)"
    by (metis append_take_drop_id filter_append)
  then show ?thesis by simp
qed

text \<open>
  Tier exclusivity. Take a key that no tier holds, and any run of stores, retrievals and
  maintenance passes in which at most one store is under that key. Then after every prefix of
  the run at most one of the four tiers holds the key. (The store that \<^verbatim>\<open>popScope\<close> makes
  is a store of such a run; \<^verbatim>\<open>pushScope\<close> does not touch the tiers.) Promotion and demotion
  move: when a retrieval promotes an entry, the tier it was in no longer holds the key and the
  tier above holds the entry; when the loop of the maintenance pass meets a stale hot entry,
  hot no longer holds its key and warm holds the entry.

  This is a property of the service for the keys of the type \<open>key\<close>. With the key
  \<^verbatim>\<open>__proto__\<close> the service does not have it: after
  \<^verbatim>\<open>storeContext('__proto__', {metadata: {accessCount: 100}}, {tier: 'cold'})\<close> and
  \<^verbatim>\<open>storeContext('value', 1, {tier: 'archived'})\<close>, in either order, the call
  \<^verbatim>\<open>retrieveContext('value')\<close> reads \<^verbatim>\<open>cold['value']\<close> through the replaced prototype,
  takes the stored value for an entry, and \<^verbatim>\<open>_promoteIfNeeded\<close> puts it into warm under
  \<^verbatim>\<open>value\<close>, so that warm and archived both hold that key.
\<close>

lemma tier_exclusivity:
  assumes "tiers_holding (memoryStore st) k = []"
    and "length (filter (stores_key k) ops) \<le> 1"
  shows "exclusive (memoryStore (tier_run stringify st (take n ops))) k \<and>
         (reaches (memoryStore s) k' t e \<and> 10 < accessCount (metadata e) + 1 \<and> t \<noteq> Hot \<longrightarrow>
            \<not> has (tier_obj (memoryStore (snd (retrieveContext now k' s))) t) k' \<and>
            map_of (tier_obj (memoryStore (snd (retrieveContext now k' s))) (tier_above t)) k' =
              Some (touch now e)) \<and>
         (distinct (map fst (hot m)) \<and> (k', e) \<in> set (hot m) \<and> stale now e \<longrightarrow>
            \<not> has (hot (foldl (demote now) m (hot m))) k' \<and>
            map_of (warm (foldl (demote now) m (hot m))) k' = Some e)"
proof -
  have "length (filter (stores_key k) (take n ops)) \<le> 1"
    using assms(2) filter_take_length [of "stores_key k" n ops] by simp
  from tier_run_stored_once [OF assms(1) this]
  have 1: "exclusive (memoryStore (tier_run stringify st (take n ops))) k" .
  have 2: "\<not> has (tier_obj (memoryStore (snd (retrieveContext now k' s))) t) k' \<and>
           map_of (tier_obj (memoryStore (snd (retrieveContext now k' s))) (tier_above t)) k' =
             Some (touch now e)"
    if "reaches (memoryStore s) k' t e" "10 < accessCount (metadata e) + 1" "t \<noteq> Hot"
    using that(2,3) tier_above_neq [of t]
      retrieve_hit_store [OF that(1), of now t] retrieve_hit_store [OF that(1), of now "tier_above t"]
    by (simp add: has_def map_of_js_delete map_of_js_define)
  have 3: "\<not> has (hot (foldl (demote now) m (hot m))) k' \<and>
           map_of (warm (foldl (demote now) m (hot m))) k' = Some e"
    if "distinct (map fst (hot m))" "(k', e) \<in> set (hot m)" "stale now e"
    using demote_loop_gone [of "(k', e)" "hot m" now m] demote_loop_warm [OF that, of m] that
    by (simp add: has_def)
  show ?thesis using 1 2 3 by blast
qed

text \<open>A run: a store into hot, a maintenance pass a day later, a retrieval.\<close>

lemma tier_exclusivity_example:
  "let ops = [Store 0 (Key ''k'') (Plain (1::nat)) no_options, Maintain 90000000,
              Retrieve 90000001 (Key ''k'')];
       st = tier_run (\<lambda>v. v) init ops
   in tiers_holding (memoryStore (init :: nat hypermind)) (Key ''k'') = [] \<and>
      length (filter (stores_key (Key ''k'')) ops) \<le> 1 \<and>
      exclusive (memoryStore st) (Key ''k'') \<and>
      tiers_holding (memoryStore st) (Key ''k'') = [Warm]"
proof -
  let ?ops = "[Store 0 (Key ''k'') (Plain (1::nat)) no_options, Maintain 90000000,
               Retrieve 90000001 (Key ''k'')]"
  let ?e = "\<lparr>key = Key ''k'', val = Plain (1::nat),
            metadata = \<lparr>timestamp = 0, accessCount = 0, significance = 1, lastAccessed = None\<rparr>\<rparr>"
  let ?e' = "\<lparr>key = Key ''k'', val = Plain (1::nat),
            metadata = \<lparr>timestamp = 0, accessCount = 1, significance = 1,
                        lastAccessed = Some 90000001\<rparr>\<rparr>"
  let ?s1 = "storeContext (\<lambda>v. v) 0 (Key ''k'') (Plain (1::nat)) no_options init"
  let ?m2 = "optimizeMemory (\<lambda>v. v) 90000000 (memoryStore ?s1)"
  have a: "tiers_holding (memoryStore (init :: nat hypermind)) (Key ''k'') = []"
    by (simp add: tiers_holding_def has_def init_def)
  have b: "length (filter (stores_key (Key ''k'')) ?ops) \<le> 1" by simp
  have 1: "memoryStore ?s1 = \<lparr>hot = [(Key ''k'', ?e)], warm = [], cold = [], archived = []\<rparr>"
    by (simp add: op_defs js_defs Let_def)
  have 2: "?m2 = \<lparr>hot = [], warm = [(Key ''k'', ?e)], cold = [], archived = []\<rparr>"
    unfolding 1 by (simp add: op_defs js_defs Let_def)
  have 3: "memoryStore (snd (retrieveContext 90000001 (Key ''k'') (?s1\<lparr>memoryStore := ?m2\<rparr>))) =
           \<lparr>hot = [], warm = [(Key ''k'', ?e')], cold = [], archived = []\<rparr>"
    unfolding 2 by (simp add: op_defs js_defs Let_def)
  have run: "memoryStore (tier_run (\<lambda>v. v) init ?ops) =
           \<lparr>hot = [], warm = [(Key ''k'', ?e')], cold = [], archived = []\<rparr>"
    using 3 by (simp add: tier_run_def)
  from tier_exclusivity [OF a b, of "\<lambda>v. v" 3, THEN conjunct1]
  have "exclusive (memoryStore (tier_run (\<lambda>v. v) init ?ops)) (Key ''k'')" by simp
  then show ?thesis
    using a b unfolding Let_def run by (simp add: tiers_holding_def has_def)
qed

subsection \<open>Deduplication\<close>

lemma delete_middle_aux:
  "fst p \<notin> fst ` set xs \<Longrightarrow> fst p \<notin> fst ` set ys \<Longrightarrow>
   AList.delete (fst p) (xs @ p # ys) = xs @ ys"
  by (induction xs) (auto simp: delete_id)

lemma delete_middle:
  "distinct (map fst (xs @ p # ys)) \<Longrightarrow> js_delete (xs @ p # ys) (fst p) = xs @ ys"
  unfolding js_delete_def by (rule delete_middle_aux) auto

lemma dedup_loop:
  "distinct (map fst (kept @ ps)) \<Longrightarrow> tier_obj m t = kept @ ps \<Longrightarrow>
   set (fst (foldl (dedup_entry stringify t) (seen, m) ps)) = set seen \<union> serial stringify ` set ps \<and>
   snd (foldl (dedup_entry stringify t) (seen, m) ps) =
     set_tier t (kept @ keep_first stringify (set seen) ps) m"
proof (induction ps arbitrary: seen m kept)
  case Nil
  then show ?case using set_tier_same [of t m] by simp
next
  case (Cons p ps)
  show ?case
  proof (cases "serial stringify p \<in> set seen")
    case True
    let ?m1 = "set_tier t (js_delete (tier_obj m t) (fst p)) m"
    have del: "js_delete (tier_obj m t) (fst p) = kept @ ps"
      using Cons.prems by (simp add: delete_middle)
    have step: "dedup_entry stringify t (seen, m) p = (seen, ?m1)"
      using True by (simp add: dedup_entry_def serial_def)
    have "distinct (map fst (kept @ ps))" using Cons.prems(1) by simp
    moreover have "tier_obj ?m1 t = kept @ ps" by (simp add: tier_obj_set_tier del)
    ultimately have IH: "set (fst (foldl (dedup_entry stringify t) (seen, ?m1) ps)) =
          set seen \<union> serial stringify ` set ps \<and>
        snd (foldl (dedup_entry stringify t) (seen, ?m1) ps) =
          set_tier t (kept @ keep_first stringify (set seen) ps) ?m1"
      by (rule Cons.IH)
    have "set_tier t x (set_tier t y m) = set_tier t x m" for x y
      by (cases t) simp_all
    then show ?thesis using IH True by (auto simp: step)
  next
    case False
    have step: "dedup_entry stringify t (seen, m) p = (serial stringify p # seen, m)"
      using False by (simp add: dedup_entry_def serial_def)
    have "distinct (map fst ((kept @ [p]) @ ps))" "tier_obj m t = (kept @ [p]) @ ps"
      using Cons.prems by simp_all
    from Cons.IH [OF this, of "serial stringify p # seen"]
    show ?thesis using False by (simp add: step)
  qed
qed

lemma dedup_tier_eq:
  assumes "distinct (map fst (tier_obj m t))"
  shows "set (fst (dedup_tier stringify (seen, m) t)) = set seen \<union> serial stringify ` set (tier_obj m t)"
    and "snd (dedup_tier stringify (seen, m) t) =
           set_tier t (keep_first stringify (set seen) (tier_obj m t)) m"
  using dedup_loop [of "[]" "tier_obj m t" m t stringify seen] assms
  by (simp_all add: dedup_tier_def)

lemma deduplicateContexts_eq:
  assumes "distinct (map fst (hot m))" "distinct (map fst (warm m))" "distinct (map fst (cold m))"
  shows "deduplicateContexts stringify m =
     m\<lparr>hot := keep_first stringify {} (hot m),
       warm := keep_first stringify (serial stringify ` set (hot m)) (warm m),
       cold := keep_first stringify
                 (serial stringify ` set (hot m) \<union> serial stringify ` set (warm m)) (cold m)\<rparr>"
proof -
  obtain seen1 m1 where s1: "dedup_tier stringify ([], m) Hot = (seen1, m1)"
    by (cases "dedup_tier stringify ([], m) Hot")
  obtain seen2 m2 where s2: "dedup_tier stringify (seen1, m1) Warm = (seen2, m2)"
    by (cases "dedup_tier stringify (seen1, m1) Warm")
  have 1: "set seen1 = serial stringify ` set (hot m)"
    "m1 = m\<lparr>hot := keep_first stringify {} (hot m)\<rparr>"
    using dedup_tier_eq [of m Hot stringify "[]"] assms(1) by (simp_all add: s1)
  have 2: "set seen2 = serial stringify ` set (hot m) \<union> serial stringify ` set (warm m)"
    "m2 = m\<lparr>hot := keep_first stringify {} (hot m),
            warm := keep_first stringify (serial stringify ` set (hot m)) (warm m)\<rparr>"
    using dedup_tier_eq [of m1 Warm stringify seen1] assms(2) unfolding s2 by (simp_all add: 1)
  have 3: "snd (dedup_tier stringify (seen2, m2) Cold) =
      m\<lparr>hot := keep_first stringify {} (hot m),
        warm := keep_first stringify (serial stringify ` set (hot m)) (warm m),
        cold := keep_first stringify
                  (serial stringify ` set (hot m) \<union> serial stringify ` set (warm m)) (cold m)\<rparr>"
    using dedup_tier_eq(2) [of m2 Cold stringify seen2] assms(3) by (simp add: 2)
  show ?thesis unfolding deduplicateContexts_def by (simp add: s1 s2) (simp add: 3)
qed

lemma keep_first_subset: "set (keep_first f S ps) \<subseteq> set ps"
  by (induction ps arbitrary: S) auto




lemma keep_first_append:
  "keep_first f S (xs @ ys) = keep_first f S xs @ keep_first f (S \<union> serial f ` set xs) ys"
  by (induction xs arbitrary: S) (simp_all add: insert_absorb)

lemma keep_first_distinct_keys:
  "distinct (map fst ps) \<Longrightarrow> distinct (map fst (keep_first f S ps))"
proof (induction ps arbitrary: S)
  case Nil
  then show ?case by simp
next
  case (Cons p ps)
  have "fst ` set (keep_first f S' ps) \<subseteq> fst ` set ps" for S'
    using keep_first_subset [of f S' ps] by auto
  then show ?case using Cons by auto
qed


subsection \<open>Distinct keys are kept; where the entries of hot, warm and cold come from\<close>

lemma storeContext_dedup:
  "memoryStore (storeContext stringify now k v options st) =
     deduplicateContexts stringify (before_dedup now k v options (memoryStore st))"
  by (simp add: storeContext_def optimizeMemory_def before_dedup_def new_entry_def target_tier_def
      Let_def)

lemma keys_insert_index: "map fst (insert_index n k e ps) \<in> {xs @ k # ys | xs ys. map fst ps = xs @ ys}"
proof (induction ps)
  case Nil
  then show ?case by simp
next
  case (Cons p ps)
  then obtain xs ys where IH: "map fst (insert_index n k e ps) = xs @ k # ys" "map fst ps = xs @ ys"
    by auto
  have a: "\<exists>xs' ys'. fst p # xs @ k # ys = xs' @ k # ys' \<and> fst p # map fst ps = xs' @ ys'"
    using IH(2) by (intro exI [of _ "fst p # xs"] exI [of _ ys]) simp
  have b: "\<exists>xs' ys'. k # fst p # map fst ps = xs' @ k # ys' \<and> fst p # map fst ps = xs' @ ys'"
    by (intro exI [of _ "[]"] exI [of _ "fst p # map fst ps"]) simp
  show ?case using a b IH(1) by (auto split: option.splits)
qed

lemma distinct_insert_index:
  "distinct (map fst ps) \<Longrightarrow> k \<notin> fst ` set ps \<Longrightarrow> distinct (map fst (insert_index n k e ps))"
proof -
  assume d: "distinct (map fst ps)" and k: "k \<notin> fst ` set ps"
  obtain xs ys where x: "map fst (insert_index n k e ps) = xs @ k # ys" "map fst ps = xs @ ys"
    using keys_insert_index [of n k e ps] by auto
  have "set xs \<union> set ys = fst ` set ps" using x(2) by (metis set_append set_map)
  then show ?thesis using d k x by auto
qed

lemma distinct_js_define: "distinct (map fst obj) \<Longrightarrow> distinct (map fst (js_define obj k e))"
  by (auto simp: js_define_def distinct_update distinct_insert_index map_of_eq_None_iff
      split: option.splits)

lemma distinct_js_delete: "distinct (map fst obj) \<Longrightarrow> distinct (map fst (js_delete obj k))"
  by (simp add: js_delete_def distinct_delete)

lemma distinct_keys_iff: "distinct_keys m \<longleftrightarrow> (\<forall>t. distinct (map fst (tier_obj m t)))"
proof
  assume "distinct_keys m"
  then show "\<forall>t. distinct (map fst (tier_obj m t))"
    by (auto simp: distinct_keys_def intro: tier.induct)
next
  assume a: "\<forall>t. distinct (map fst (tier_obj m t))"
  from a [rule_format, of Hot] a [rule_format, of Warm] a [rule_format, of Cold]
    a [rule_format, of Archived]
  show "distinct_keys m" by (simp add: distinct_keys_def)
qed

lemma distinct_keys_put:
  "distinct_keys m \<Longrightarrow> distinct_keys (set_tier t (js_define (tier_obj m t) k e) m)"
  by (simp add: distinct_keys_iff tier_obj_set_tier distinct_js_define)

lemma distinct_keys_demote: "distinct_keys m \<Longrightarrow> distinct_keys (demote now m p)"
  by (simp add: demote_unfold distinct_keys_def distinct_js_define distinct_js_delete)

lemma distinct_keys_demote_loop: "distinct_keys m \<Longrightarrow> distinct_keys (foldl (demote now) m ps)"
  by (induction ps arbitrary: m) (simp_all add: distinct_keys_demote)

lemma distinct_keys_dedup:
  assumes "distinct_keys m"
  shows "distinct_keys (deduplicateContexts stringify m)"
proof -
  have dk: "distinct (map fst (hot m))" "distinct (map fst (warm m))" "distinct (map fst (cold m))"
    "distinct (map fst (archived m))"
    using assms by (simp_all add: distinct_keys_def)
  show ?thesis
    unfolding deduplicateContexts_eq [OF dk(1,2,3)]
    using dk by (simp add: distinct_keys_def keep_first_distinct_keys)
qed

lemma distinct_keys_before_dedup:
  "distinct_keys m \<Longrightarrow> distinct_keys (before_dedup now k v options m)"
  by (simp add: before_dedup_def Let_def distinct_keys_put distinct_keys_demote_loop)

lemma distinct_keys_store:
  "distinct_keys (memoryStore st) \<Longrightarrow>
   distinct_keys (memoryStore (storeContext stringify now k v options st))"
  by (simp add: storeContext_dedup distinct_keys_dedup distinct_keys_before_dedup)








subsection \<open>A store can delete what it has just stored\<close>

lemma demote_loop_idle: "list_all (\<lambda>p. \<not> stale now (snd p)) ps \<Longrightarrow> foldl (demote now) m ps = m"
  by (induction ps arbitrary: m) (simp_all add: demote_unfold)

lemma js_define_fresh:
  "map_of obj k = None \<Longrightarrow> array_index (key_name k) = None \<Longrightarrow> js_define obj k e = obj @ [(k, e)]"
  by (simp add: js_define_def)

lemma keep_first_last_seen:
  "serial f p \<in> S \<union> serial f ` set ps \<Longrightarrow> keep_first f S (ps @ [p]) = keep_first f S ps"
  by (simp add: keep_first_append)

lemma fresh_entry_not_stale:
  "\<not> stale now \<lparr>key = k, val = v, metadata = \<lparr>timestamp = now, accessCount = 0,
       significance = s, lastAccessed = None\<rparr>\<rparr>"
  by (simp add: stale_def)

text \<open>
  A case stated on the store before the call. Let the tiers have distinct keys, let no tier
  hold the key \<open>k\<close>, let \<open>k\<close> be an ordinary key that is not an array index (so that the new
  property comes last in its tier), let no hot entry be stale (so that the maintenance pass
  demotes nothing), and let the target tier be hot, warm or cold. If the target tier or a tier
  before it in the order hot, warm, cold already has an entry whose value has the
  serialisation of the new value, the store deletes the entry it has just put.
\<close>

lemma store_deletes_when_idle:
  assumes "distinct_keys (memoryStore st)"
    and "tiers_holding (memoryStore st) k = []"
    and "key_name k \<notin> set object_prototype_names"
    and "array_index (key_name k) = None"
    and "list_all (\<lambda>p. \<not> stale now (snd p)) (hot (memoryStore st))"
    and "opt_tier options \<noteq> Some Archived"
    and "stringify v \<in> serial stringify `
           set (met_by (memoryStore st) (case opt_tier options of Some t \<Rightarrow> t | None \<Rightarrow> Hot))"
  shows "tiers_holding (memoryStore (storeContext stringify now k v options st)) k = [] \<and>
         retrieveContext now' k (storeContext stringify now k v options st) =
           (Inr None, storeContext stringify now k v options st)"
proof -
  define t where "t = (case opt_tier options of Some t \<Rightarrow> t | None \<Rightarrow> Hot)"
  define e where "e = \<lparr>key = k, val = v,
      metadata = \<lparr>timestamp = now, accessCount = 0,
                  significance = (case opt_significance options of
                                    Some s \<Rightarrow> if s = 0 then 1 else s | None \<Rightarrow> 1),
                  lastAccessed = None\<rparr>\<rparr>"
  define m where "m = memoryStore st"
  define m1 where "m1 = set_tier t (tier_obj m t @ [(k, e)]) m"
  let ?st' = "storeContext stringify now k v options st"
  have t: "t \<noteq> Archived" using assms(6) by (auto simp: t_def split: option.splits)
  have absent: "map_of (tier_obj m u) k = None" for u
    using assms(2) by (simp add: tiers_holding_Nil has_def m_def)
  have ser: "serial stringify (k, e) = stringify v" by (simp add: serial_def e_def)
  have fresh: "\<not> stale now e" unfolding e_def by (rule fresh_entry_not_stale)
  have put: "js_define (tier_obj m t) k e = tier_obj m t @ [(k, e)]"
    using absent assms(4) by (simp add: js_define_fresh)
  have "list_all (\<lambda>p. \<not> stale now (snd p)) (hot m1)"
    using assms(5) fresh by (cases t) (simp_all add: m1_def m_def)
  then have idle: "foldl (demote now) m1 (hot m1) = m1" by (rule demote_loop_idle)
  have store: "memoryStore ?st' = deduplicateContexts stringify m1"
    unfolding storeContext_store optimizeMemory_def
    using put idle by (simp add: t_def e_def m_def m1_def)
  have dk: "distinct (map fst (tier_obj m u))" for u
    using assms(1) by (cases u) (simp_all add: distinct_keys_def m_def)
  have knew: "k \<notin> fst ` set (tier_obj m u)" for u
    using absent [of u] by (simp add: map_of_eq_None_iff)
  have d1: "distinct (map fst (hot m1))" "distinct (map fst (warm m1))" "distinct (map fst (cold m1))"
    using dk [of Hot] dk [of Warm] dk [of Cold] knew [of Hot] knew [of Warm] knew [of Cold]
    by (cases t; simp add: m1_def)+
  note eq = deduplicateContexts_eq [OF d1, of stringify]
  have seen: "stringify v \<in> serial stringify ` set (met_by m t)"
    using assms(7) by (simp add: t_def m_def)
  have sub: "fst ` set (keep_first stringify S ps) \<subseteq> fst ` set ps" for S ps
    using keep_first_subset [of stringify S ps] by auto
  have gone: "k \<notin> fst ` set (tier_obj (deduplicateContexts stringify m1) u)" for u
  proof (cases "u = t")
    case False
    have "fst ` set (tier_obj (deduplicateContexts stringify m1) u) \<subseteq> fst ` set (tier_obj m1 u)"
      using shrunk_set [OF deduplicateContexts_shrunk [of m1 stringify], of u] by auto
    then show ?thesis using False knew [of u] by (auto simp: m1_def tier_obj_set_tier)
  next
    case True
    show ?thesis
    proof (cases t)
      case Hot
      then have "hot (deduplicateContexts stringify m1) = keep_first stringify {} (hot m)"
        using seen unfolding eq by (simp add: m1_def keep_first_last_seen ser image_Un)
      then show ?thesis using True Hot sub [of "{}" "hot m"] knew [of Hot] by auto
    next
      case Warm
      then have "warm (deduplicateContexts stringify m1) =
          keep_first stringify (serial stringify ` set (hot m)) (warm m)"
        using seen unfolding eq by (simp add: m1_def keep_first_last_seen ser image_Un)
      then show ?thesis using True Warm sub [of _ "warm m"] knew [of Warm] by auto
    next
      case Cold
      then have "cold (deduplicateContexts stringify m1) =
          keep_first stringify (serial stringify ` set (hot m) \<union> serial stringify ` set (warm m))
            (cold m)"
        using seen unfolding eq by (simp add: m1_def keep_first_last_seen ser image_Un Un_assoc)
      then show ?thesis using True Cold sub [of _ "cold m"] knew [of Cold] by auto
    next
      case Archived
      then show ?thesis using t by simp
    qed
  qed
  then have none: "\<forall>u. \<not> has (tier_obj (memoryStore ?st') u) k"
    by (simp add: store has_iff)
  then have "tiers_holding (memoryStore ?st') k = []" by (simp add: tiers_holding_Nil)
  moreover have "retrieveContext now' k ?st' = (Inr None, ?st')"
    using retrieve_ordinary_key(2) [OF assms(3) none] .
  ultimately show ?thesis by simp
qed






text \<open>
  The order is that of the store on which the deduplication runs, after the demotions of the
  call. Here \<^verbatim>\<open>"a"\<close> is stored into hot and, more than a day later, \<^verbatim>\<open>"b"\<close> with the same
  value: the older entry is demoted to warm before the deduplication, which then meets the new
  entry first, keeps it and deletes the older one.
\<close>

lemma store_keeps_new_entry_after_demotion:
  "let st1 = storeContext (\<lambda>v. v) 0 (Key ''a'') (Plain (0::nat)) no_options init;
       st2 = storeContext (\<lambda>v. v) 90000000 (Key ''b'') (Plain 0) no_options st1
   in map fst (hot (memoryStore st1)) = [Key ''a''] \<and>
      map fst (hot (before_dedup 90000000 (Key ''b'') (Plain 0) no_options (memoryStore st1))) =
        [Key ''b''] \<and>
      map fst (warm (before_dedup 90000000 (Key ''b'') (Plain 0) no_options (memoryStore st1))) =
        [Key ''a''] \<and>
      map fst (hot (memoryStore st2)) = [Key ''b''] \<and>
      warm (memoryStore st2) = [] \<and>
      fst (retrieveContext 90000001 (Key ''b'') st2) = Inr (Some (Plain 0)) \<and>
      fst (retrieveContext 90000001 (Key ''a'') st2) = Inr None"
proof -
  let ?a = "\<lparr>key = Key ''a'', val = Plain (0::nat),
            metadata = \<lparr>timestamp = 0, accessCount = 0, significance = 1, lastAccessed = None\<rparr>\<rparr>"
  let ?b = "\<lparr>key = Key ''b'', val = Plain (0::nat),
            metadata = \<lparr>timestamp = 90000000, accessCount = 0, significance = 1,
                        lastAccessed = None\<rparr>\<rparr>"
  let ?st1 = "storeContext (\<lambda>v. v) 0 (Key ''a'') (Plain (0::nat)) no_options init"
  let ?st2 = "storeContext (\<lambda>v. v) 90000000 (Key ''b'') (Plain (0::nat)) no_options ?st1"
  have 1: "memoryStore ?st1 = \<lparr>hot = [(Key ''a'', ?a)], warm = [], cold = [], archived = []\<rparr>"
    by (simp add: op_defs js_defs Let_def)
  have 2: "before_dedup 90000000 (Key ''b'') (Plain 0) no_options (memoryStore ?st1) =
             \<lparr>hot = [(Key ''b'', ?b)], warm = [(Key ''a'', ?a)], cold = [], archived = []\<rparr>"
    unfolding 1 by (simp add: before_dedup_def target_tier_def new_entry_def no_options_def
        js_defs demote_def Let_def)
  have "memoryStore ?st2 =
          deduplicateContexts (\<lambda>v. v)
            (before_dedup 90000000 (Key ''b'') (Plain 0) no_options (memoryStore ?st1))"
    by (rule storeContext_dedup)
  then have 3: "memoryStore ?st2 =
                  \<lparr>hot = [(Key ''b'', ?b)], warm = [], cold = [], archived = []\<rparr>"
    unfolding 2
    by (simp add: deduplicateContexts_def dedup_tier_def dedup_entry_def js_defs Let_def)
  have 4: "fst (retrieveContext 90000001 (Key ''b'') ?st2) = Inr (Some (Plain 0))"
    by (simp add: retrieveContext_def 3 promoteIfNeeded_def tierOrder_def touch_def js_defs Let_def)
  have 5: "fst (retrieveContext 90000001 (Key ''a'') ?st2) = Inr None"
    by (simp add: retrieveContext_def 3 js_defs)
  show ?thesis
    unfolding Let_def using 1 2 3 4 5 by simp
qed

subsection \<open>Two stores of equal values\<close>








subsection \<open>The states that runs from the initial state reach\<close>

text \<open>
  The conditions used above hold after every run from the initial state: the scope stack
  holds each scope instance once, and the keys of each tier object are distinct.
\<close>

lemma linked_append:
  "linked below (fs @ [f]) \<longleftrightarrow>
     linked below fs \<and> parent f = (if fs = [] then below else Some (last fs))"
  by (induction fs arbitrary: below) auto

lemma linked_butlast: "linked below fs \<Longrightarrow> linked below (butlast fs)"
  by (induction fs arbitrary: below) auto

lemma parent_smaller: "parent f = Some p \<Longrightarrow> size p < size f"
  by (cases f) simp

lemma linked_distinct:
  "linked below fs \<Longrightarrow>
   distinct fs \<and> (\<forall>p g. below = Some p \<and> g \<in> set fs \<longrightarrow> size p < size g)"
proof (induction fs arbitrary: below)
  case Nil
  then show ?case by simp
next
  case (Cons f fs)
  then have IH: "distinct fs" "\<And>g. g \<in> set fs \<Longrightarrow> size f < size g"
    by auto
  have "f \<notin> set fs" using IH(2) [of f] by auto
  moreover have "size p < size g" if "below = Some p" "g \<in> set (f # fs)" for p g
  proof -
    have "size p < size f" using Cons.prems that(1) by (simp add: parent_smaller)
    then show ?thesis using that(2) IH(2) [of g] by auto
  qed
  ultimately show ?case using IH(1) by simp
qed

lemma step_linked: "linked None (scopeStack st) \<Longrightarrow> linked None (scopeStack (step stringify st a))"
proof (cases a)
  case (Push sid now c)
  assume "linked None (scopeStack st)"
  then show ?thesis
    using Push by (simp add: pushScope_result linked_append getCurrentScope_def)
next
  case (Pop now)
  assume "linked None (scopeStack st)"
  then show ?thesis using Pop by (simp add: popScope_result linked_butlast)
next
  case (Tier b)
  assume "linked None (scopeStack st)"
  then show ?thesis using Tier by simp
qed

lemma run_linked: "linked None (scopeStack st) \<Longrightarrow> linked None (scopeStack (run stringify st ops))"
  unfolding run_def by (induction ops arbitrary: st) (simp_all add: step_linked)

lemma run_stack_distinct: "distinct (scopeStack (run stringify init ops))"
  using run_linked [of init stringify ops] linked_distinct [of None]
  by (simp add: init_def)

lemma keys_alist_update: "map_of ps k \<noteq> None \<Longrightarrow> map fst (AList.update k e ps) = map fst ps"
  by (induction ps) auto

lemma distinct_keys_retrieve:
  assumes "distinct_keys (memoryStore st)"
  shows "distinct_keys (memoryStore (snd (retrieveContext now k st)))"
proof -
  consider (hit) t e where "reaches (memoryStore st) k t e"
    | (same) "snd (retrieveContext now k st) = st"
    using retrieve_cases [of st k now] by fastforce
  then show ?thesis
  proof cases
    case hit
    have own: "map_of (tier_obj (memoryStore st) t) k \<noteq> None"
      using hit by (simp add: reaches_def js_get_Own)
    have d: "distinct (map fst (tier_obj (memoryStore st) u))" for u
      using assms by (simp add: distinct_keys_iff)
    show ?thesis
      unfolding distinct_keys_iff retrieve_hit_store [OF hit]
      using d own by (simp add: distinct_js_delete distinct_js_define keys_alist_update)
  next
    case same
    then show ?thesis using assms by simp
  qed
qed

lemma distinct_keys_optimizeMemory:
  "distinct_keys m \<Longrightarrow> distinct_keys (optimizeMemory stringify now m)"
  by (simp add: optimizeMemory_def distinct_keys_dedup distinct_keys_demote_loop)

lemma distinct_keys_step:
  "distinct_keys (memoryStore st) \<Longrightarrow> distinct_keys (memoryStore (step stringify st a))"
proof (cases a)
  case (Push sid now c)
  assume "distinct_keys (memoryStore st)"
  then show ?thesis using Push by (simp add: pushScope_result)
next
  case (Pop now)
  assume "distinct_keys (memoryStore st)"
  then show ?thesis
    using Pop by (simp add: popScope_def archiveScope_def Let_def distinct_keys_store)
next
  case (Tier b)
  assume "distinct_keys (memoryStore st)"
  then show ?thesis
    using Tier
    by (cases b) (simp_all add: distinct_keys_store distinct_keys_retrieve distinct_keys_optimizeMemory)
qed

lemma run_distinct_keys: "distinct_keys (memoryStore (run stringify init ops))"
proof -
  have "distinct_keys (memoryStore st) \<Longrightarrow> distinct_keys (memoryStore (foldl (step stringify) st ops))"
    for st :: "'a hypermind"
    by (induction ops arbitrary: st) (simp_all add: distinct_keys_step)
  then show ?thesis by (simp add: run_def init_def distinct_keys_def)
qed

end
